theory Spec2Isabelle
  imports Main
begin

section \<open>The delay operator of rxjs: src/internal/operators/delay.ts\<close>

text \<open>
  A shallow embedding of one subscription to \<^verbatim>\<open>source.pipe(delay(d, scheduler))\<close>.

  Numbers are JavaScript numbers in the source. Times and delays are modelled as
  \<^typ>\<open>int\<close> (milliseconds): \<^verbatim>\<open>Date.now()\<close> and the value of a \<^verbatim>\<open>Date\<close> are integral, and
  \<^verbatim>\<open>+\<close>, \<^verbatim>\<open>-\<close>, \<^verbatim>\<open>Math.abs\<close>, \<^verbatim>\<open>Math.max\<close> and \<^verbatim>\<open><=\<close> are exact on integers below
  \<open>2 ^ 53\<close>. \<^verbatim>\<open>NaN\<close>, the infinities, fractional delays and an invalid \<^verbatim>\<open>Date\<close> are outside
  the model.
\<close>

subsection \<open>Data\<close>

text \<open>\<^verbatim>\<open>class DelayMessage<T> { time: number; value: T }\<close> (the field \<^verbatim>\<open>value\<close> is named \<open>val\<close>).\<close>

record 'a DelayMessage =
  time :: int
  val :: 'a

text \<open>What the downstream subscriber is told: \<^verbatim>\<open>next(v)\<close>, \<^verbatim>\<open>error(e)\<close>, \<^verbatim>\<open>complete()\<close>.\<close>

datatype ('a, 'e) notification = OnNext 'a | OnError 'e | OnComplete

text \<open>
  Modelled from the spec: the scheduler (\<^verbatim>\<open>SchedulerLike\<close>, \<^verbatim>\<open>SchedulerAction\<close>; the source
  imports them, their code is not part of it). Section 6 of the spec gives it a clock \<^verbatim>\<open>now()\<close>
  and \<^verbatim>\<open>schedule(action, delay, state)\<close> returning a cancellable handle that the action can
  rearm. \<open>clock s k\<close> is what the \<open>k\<close>-th call of \<^verbatim>\<open>now()\<close> returns, \<open>reads s\<close> counts the calls
  made so far, so the clock may move between any two reads, also inside one callback.
  \<open>actions s\<close> holds the pending (armed, not cancelled) actions of this stage, each as the
  wait it was scheduled with.
\<close>

record Scheduler =
  clock :: "nat \<Rightarrow> int"
  reads :: nat
  actions :: "int list"

text \<open>
  Modelled from the spec: the downstream \<^verbatim>\<open>Subscriber\<close> (\<^verbatim>\<open>destination\<close>), of which the source
  calls \<^verbatim>\<open>next\<close>, \<^verbatim>\<open>error\<close>, \<^verbatim>\<open>complete\<close> and \<^verbatim>\<open>add\<close>. \<open>received\<close> is the log of what it was told,
  \<open>stopped\<close> says that it got \<^verbatim>\<open>error\<close> or \<^verbatim>\<open>complete\<close> or was cancelled (it then ignores
  every call, the three-call contract of section 6).
\<close>

record ('a, 'e) Subscriber =
  received :: "('a, 'e) notification list"
  stopped :: bool

text \<open>
  \<^verbatim>\<open>class DelaySubscriber<T> extends Subscriber<T>\<close>: the fields \<^verbatim>\<open>queue\<close>, \<^verbatim>\<open>active\<close>,
  \<^verbatim>\<open>delay\<close> (named \<open>delay_ms\<close>, \<open>delay\<close> being the operator), \<^verbatim>\<open>scheduler\<close>, \<^verbatim>\<open>destination\<close>, and
  the two flags it inherits, \<^verbatim>\<open>isStopped\<close> and \<^verbatim>\<open>closed\<close>.
\<close>

record ('a, 'e) DelaySubscriber =
  queue :: "'a DelayMessage list"
  active :: bool
  delay_ms :: int
  scheduler :: Scheduler
  destination :: "('a, 'e) Subscriber"
  isStopped :: bool
  closed :: bool

text \<open>
  The first argument of \<^verbatim>\<open>delay(delay: number | Date, ...)\<close>: a number, or a valid \<^verbatim>\<open>Date\<close>
  given by its time value \<^verbatim>\<open>+date\<close> (\<^verbatim>\<open>isValidDate\<close> holds exactly of the second form).
\<close>

datatype delay_arg = Number int | Date int

subsection \<open>The collaborators\<close>

text \<open>Modelled from the spec: \<^verbatim>\<open>scheduler.now()\<close>, one read of the clock.\<close>

definition now :: "Scheduler \<Rightarrow> int \<times> Scheduler" where
  "now s = (clock s (reads s), s\<lparr>reads := Suc (reads s)\<rparr>)"

text \<open>
  Modelled from the spec: \<^verbatim>\<open>scheduler.schedule(work, delay, state)\<close> arms a new action with the
  given wait and returns its handle (the last element of \<open>actions\<close>).
\<close>

definition schedule :: "int \<Rightarrow> Scheduler \<Rightarrow> Scheduler" where
  "schedule d s = s\<lparr>actions := actions s @ [d]\<rparr>"

text \<open>
  Modelled from the spec: \<^verbatim>\<open>destination.add(handle)\<close>. The destination owns the handle from
  now on and cancels it when it is torn down; a destination that is already torn down
  cancels it at once.
\<close>

definition destination_add :: "('a, 'e) DelaySubscriber \<Rightarrow> ('a, 'e) DelaySubscriber" where
  "destination_add w =
     (if stopped (destination w)
      then w\<lparr>scheduler := (scheduler w)\<lparr>actions := butlast (actions (scheduler w))\<rparr>\<rparr>
      else w)"

text \<open>Modelled from the spec: \<^verbatim>\<open>destination.next(value)\<close>.\<close>

definition destination_next :: "'a \<Rightarrow> ('a, 'e) DelaySubscriber \<Rightarrow> ('a, 'e) DelaySubscriber" where
  "destination_next v w =
     (if stopped (destination w) then w
      else w\<lparr>destination := (destination w)\<lparr>received := received (destination w) @ [OnNext v]\<rparr>\<rparr>)"

text \<open>
  Modelled from the spec: \<^verbatim>\<open>destination.error(err)\<close>. The destination records the
  notification and tears down, which cancels the handles added to it (section 4.3: "cancel
  any armed dispatch action").
\<close>

definition destination_error :: "'e \<Rightarrow> ('a, 'e) DelaySubscriber \<Rightarrow> ('a, 'e) DelaySubscriber" where
  "destination_error e w =
     (if stopped (destination w) then w
      else w\<lparr>destination := (destination w)\<lparr>received := received (destination w) @ [OnError e],
                                              stopped := True\<rparr>,
             scheduler := (scheduler w)\<lparr>actions := []\<rparr>\<rparr>)"

text \<open>
  Modelled from the spec: \<^verbatim>\<open>destination.complete()\<close>. As for an error, the destination
  records the notification and tears down with the handles added to it.
\<close>

definition destination_complete :: "('a, 'e) DelaySubscriber \<Rightarrow> ('a, 'e) DelaySubscriber" where
  "destination_complete w =
     (if stopped (destination w) then w
      else w\<lparr>destination := (destination w)\<lparr>received := received (destination w) @ [OnComplete],
                                              stopped := True\<rparr>,
             scheduler := (scheduler w)\<lparr>actions := []\<rparr>\<rparr>)"

text \<open>
  Modelled from the spec: \<^verbatim>\<open>this.unsubscribe()\<close> of the stage, inherited from \<^verbatim>\<open>Subscriber\<close>.
  It stops and closes the stage and is idempotent. The action handle was added to the
  destination (\<^verbatim>\<open>destination.add\<close> in \<^verbatim>\<open>_schedule\<close>), not to the stage, so it stays armed:
  this is what lets a deferred completion be delivered by the dispatch loop.
\<close>

definition unsubscribe :: "('a, 'e) DelaySubscriber \<Rightarrow> ('a, 'e) DelaySubscriber" where
  "unsubscribe w = (if closed w then w else w\<lparr>isStopped := True, closed := True\<rparr>)"

text \<open>
  Modelled from the spec: external cancellation (section 4.3, "Teardown (external
  cancellation) at any time"), the downstream unsubscribing. The destination is torn down:
  it takes no further call, the handles added to it are cancelled, and the stage, which its
  constructor chained to the destination, is unsubscribed. A second cancellation, or one
  after \<^verbatim>\<open>error\<close> or \<^verbatim>\<open>complete\<close>, has no effect. The spec lets the teardown discard the
  queue; \<^verbatim>\<open>queue\<close> and \<^verbatim>\<open>active\<close> are private fields that only the statements of
  \<^verbatim>\<open>DelaySubscriber\<close> write, and none of them runs on this path, so both stay as they are
  (nothing reads them afterwards).
\<close>

definition destination_unsubscribe :: "('a, 'e) DelaySubscriber \<Rightarrow> ('a, 'e) DelaySubscriber" where
  "destination_unsubscribe w =
     (if stopped (destination w) then w
      else unsubscribe (w\<lparr>destination := (destination w)\<lparr>stopped := True\<rparr>,
                         scheduler := (scheduler w)\<lparr>actions := []\<rparr>\<rparr>))"

text \<open>
  Modelled from the spec: \<^verbatim>\<open>this.schedule(state, delay)\<close> inside \<^verbatim>\<open>dispatch\<close>, where \<^verbatim>\<open>this\<close> is
  the action that is running (it is no longer pending). It rearms this same action with
  the new wait.
\<close>

definition action_schedule :: "int \<Rightarrow> ('a, 'e) DelaySubscriber \<Rightarrow> ('a, 'e) DelaySubscriber" where
  "action_schedule d w = w\<lparr>scheduler := schedule d (scheduler w)\<rparr>"

text \<open>
  Modelled from the spec: \<^verbatim>\<open>this.unsubscribe()\<close> inside \<^verbatim>\<open>dispatch\<close> cancels the running action:
  it is not pending and stays out of \<open>actions\<close>.
\<close>

definition action_unsubscribe :: "('a, 'e) DelaySubscriber \<Rightarrow> ('a, 'e) DelaySubscriber" where
  "action_unsubscribe w = w"

subsection \<open>The operator and the stage\<close>

text \<open>
  \<^verbatim>\<open>const delayFor = isValidDate(delay) ? +delay - scheduler.now() : Math.abs(delay);\<close>
\<close>

definition delayFor :: "delay_arg \<Rightarrow> Scheduler \<Rightarrow> int \<times> Scheduler" where
  "delayFor d s =
     (case d of
        Date ms \<Rightarrow> (case now s of (t, s') \<Rightarrow> (ms - t, s'))
      | Number n \<Rightarrow> (\<bar>n\<bar>, s))"

text \<open>The constructor: \<^verbatim>\<open>queue = []\<close>, \<^verbatim>\<open>active = false\<close>, and a stage that is not stopped.\<close>

definition DelaySubscriber_new ::
  "('a, 'e) Subscriber \<Rightarrow> int \<Rightarrow> Scheduler \<Rightarrow> ('a, 'e) DelaySubscriber" where
  "DelaySubscriber_new dest d s =
     \<lparr>queue = [], active = False, delay_ms = d, scheduler = s, destination = dest,
      isStopped = False, closed = False\<rparr>"

text \<open>
  \<^verbatim>\<open>delay(delay, scheduler)\<close> followed by the subscription of \<open>dest\<close>
  (\<^verbatim>\<open>DelayOperator.call\<close>): the stage as it is before the first upstream event.
\<close>

definition delay :: "delay_arg \<Rightarrow> Scheduler \<Rightarrow> ('a, 'e) Subscriber \<Rightarrow> ('a, 'e) DelaySubscriber" where
  "delay d s dest = (case delayFor d s of (df, s') \<Rightarrow> DelaySubscriber_new dest df s')"

text \<open>
  The loop of \<^verbatim>\<open>dispatch\<close>:
  \<^verbatim>\<open>while (queue.length > 0 && queue[0].time - scheduler.now() <= 0) destination.next(queue.shift()!.value);\<close>
  The clock is read once per test of a non-empty queue.
\<close>

function dispatch_loop :: "('a, 'e) DelaySubscriber \<Rightarrow> ('a, 'e) DelaySubscriber" where
  "dispatch_loop w =
     (case queue w of
        [] \<Rightarrow> w
      | m # ms \<Rightarrow>
          (case now (scheduler w) of
             (t, s) \<Rightarrow>
               if time m - t \<le> 0
               then dispatch_loop (destination_next (val m) (w\<lparr>scheduler := s, queue := ms\<rparr>))
               else w\<lparr>scheduler := s\<rparr>))"
  by pat_completeness auto
termination
  by (relation "measure (\<lambda>w. length (queue w))") (auto simp: destination_next_def)

declare dispatch_loop.simps [simp del]

text \<open>The body of the scheduled action, \<^verbatim>\<open>DelaySubscriber.dispatch\<close>.\<close>

definition dispatch :: "('a, 'e) DelaySubscriber \<Rightarrow> ('a, 'e) DelaySubscriber" where
  "dispatch w =
     (let w1 = dispatch_loop w in
      case queue w1 of
        m # ms \<Rightarrow>
          (case now (scheduler w1) of
             (t, s) \<Rightarrow> action_schedule (max 0 (time m - t)) (w1\<lparr>scheduler := s\<rparr>))
      | [] \<Rightarrow>
          if isStopped w1 then (destination_complete w1)\<lparr>active := False\<rparr>
          else (action_unsubscribe w1)\<lparr>active := False\<rparr>)"

text \<open>\<^verbatim>\<open>_schedule(scheduler)\<close>: set the flag, arm a new action with wait \<^verbatim>\<open>this.delay\<close>.\<close>

definition DelaySubscriber_schedule :: "('a, 'e) DelaySubscriber \<Rightarrow> ('a, 'e) DelaySubscriber" where
  "DelaySubscriber_schedule w =
     (let w1 = w\<lparr>active := True\<rparr> in
      destination_add (w1\<lparr>scheduler := schedule (delay_ms w1) (scheduler w1)\<rparr>))"

text \<open>\<^verbatim>\<open>_next(value)\<close>.\<close>

definition DelaySubscriber_next :: "'a \<Rightarrow> ('a, 'e) DelaySubscriber \<Rightarrow> ('a, 'e) DelaySubscriber" where
  "DelaySubscriber_next v w =
     (case now (scheduler w) of
        (t, s) \<Rightarrow>
          (let message = \<lparr>time = t + delay_ms w, val = v\<rparr>;
               w1 = w\<lparr>scheduler := s, queue := queue w @ [message]\<rparr>
           in if active w1 = False then DelaySubscriber_schedule w1 else w1))"

text \<open>\<^verbatim>\<open>_error(err)\<close>.\<close>

definition DelaySubscriber_error :: "'e \<Rightarrow> ('a, 'e) DelaySubscriber \<Rightarrow> ('a, 'e) DelaySubscriber" where
  "DelaySubscriber_error err w = unsubscribe (destination_error err (w\<lparr>queue := []\<rparr>))"

text \<open>\<^verbatim>\<open>_complete()\<close>.\<close>

definition DelaySubscriber_complete :: "('a, 'e) DelaySubscriber \<Rightarrow> ('a, 'e) DelaySubscriber" where
  "DelaySubscriber_complete w =
     unsubscribe (if length (queue w) = 0 then destination_complete w else w)"

text \<open>
  Modelled from the spec: \<^verbatim>\<open>next(value)\<close>, the public entry point the stage inherits from
  \<^verbatim>\<open>Subscriber\<close>. It runs \<^verbatim>\<open>_next\<close> unless the stage is stopped (section 6: no call is
  handled after error or complete).
\<close>

definition Subscriber_next :: "'a \<Rightarrow> ('a, 'e) DelaySubscriber \<Rightarrow> ('a, 'e) DelaySubscriber" where
  "Subscriber_next v w = (if isStopped w then w else DelaySubscriber_next v w)"

text \<open>
  Modelled from the spec: \<^verbatim>\<open>error(err)\<close>, inherited from \<^verbatim>\<open>Subscriber\<close>. On a stage that is not
  stopped it sets the Stopped Flag and runs \<^verbatim>\<open>_error\<close>.
\<close>

definition Subscriber_error :: "'e \<Rightarrow> ('a, 'e) DelaySubscriber \<Rightarrow> ('a, 'e) DelaySubscriber" where
  "Subscriber_error err w =
     (if isStopped w then w else DelaySubscriber_error err (w\<lparr>isStopped := True\<rparr>))"

text \<open>
  Modelled from the spec: \<^verbatim>\<open>complete()\<close>, inherited from \<^verbatim>\<open>Subscriber\<close>. On a stage that is not
  stopped it sets the Stopped Flag (section 4.3) and runs \<^verbatim>\<open>_complete\<close>.
\<close>

definition Subscriber_complete :: "('a, 'e) DelaySubscriber \<Rightarrow> ('a, 'e) DelaySubscriber" where
  "Subscriber_complete w =
     (if isStopped w then w else DelaySubscriber_complete (w\<lparr>isStopped := True\<rparr>))"

subsection \<open>Runs of a stage\<close>

text \<open>
  What can happen to a stage: the three upstream calls, the downstream cancelling, and the
  scheduler running the pending action number \<open>i\<close>. The scheduler may run an action at any
  time (the real one waits for at least the wait asked for), so a property of all runs
  holds of the real ones.
\<close>

datatype ('a, 'e) event = Next 'a | Error 'e | Complete | Unsubscribe | Wakeup nat

text \<open>
  Modelled from the spec: the scheduler takes the pending action \<open>i\<close> off its list and runs
  the body with it as \<^verbatim>\<open>this\<close>; no such action, no effect.
\<close>

definition wakeup :: "nat \<Rightarrow> ('a, 'e) DelaySubscriber \<Rightarrow> ('a, 'e) DelaySubscriber" where
  "wakeup i w =
     (let acts = actions (scheduler w) in
      if i < length acts
      then dispatch (w\<lparr>scheduler := (scheduler w)\<lparr>actions := take i acts @ drop (Suc i) acts\<rparr>\<rparr>)
      else w)"

fun step :: "('a, 'e) event \<Rightarrow> ('a, 'e) DelaySubscriber \<Rightarrow> ('a, 'e) DelaySubscriber" where
  "step (Next v) w = Subscriber_next v w"
| "step (Error err) w = Subscriber_error err w"
| "step Complete w = Subscriber_complete w"
| "step Unsubscribe w = destination_unsubscribe w"
| "step (Wakeup i) w = wakeup i w"

fun run :: "('a, 'e) event list \<Rightarrow> ('a, 'e) DelaySubscriber \<Rightarrow> ('a, 'e) DelaySubscriber" where
  "run [] w = w"
| "run (e # es) w = run es (step e w)"

text \<open>
  Modelled from the spec: a scheduler with clock \<open>clk\<close> on which nothing was read or
  scheduled yet.
\<close>

definition Scheduler_new :: "(nat \<Rightarrow> int) \<Rightarrow> Scheduler" where
  "Scheduler_new clk = \<lparr>clock = clk, reads = 0, actions = []\<rparr>"

text \<open>Modelled from the spec: a downstream subscriber that was told nothing yet.\<close>

definition Subscriber_new :: "('a, 'e) Subscriber" where
  "Subscriber_new = \<lparr>received = [], stopped = False\<rparr>"

text \<open>A fresh stage: \<^verbatim>\<open>delay(d, scheduler)\<close> on a scheduler with clock \<open>clk\<close>, subscribed to.\<close>

definition stage :: "delay_arg \<Rightarrow> (nat \<Rightarrow> int) \<Rightarrow> ('a, 'e) DelaySubscriber" where
  "stage d clk = delay d (Scheduler_new clk) Subscriber_new"

subsection \<open>Auxiliary notions for the proofs\<close>

text \<open>
  How many items one run of the loop of \<^verbatim>\<open>dispatch\<close> removes from queue \<open>q\<close> when the clock
  is \<open>clk\<close> and \<open>r\<close> reads were made before: the loop stops at the first item that is not
  due at the read made for it.
\<close>

fun drained :: "(nat \<Rightarrow> int) \<Rightarrow> nat \<Rightarrow> 'a DelayMessage list \<Rightarrow> nat" where
  "drained clk r [] = 0"
| "drained clk r (m # ms) = (if time m - clk r \<le> 0 then Suc (drained clk (Suc r) ms) else 0)"

definition ndrained :: "('a, 'e) DelaySubscriber \<Rightarrow> nat" where
  "ndrained w = drained (clock (scheduler w)) (reads (scheduler w)) (queue w)"

text \<open>
  The invariant of a stage: at most one action is pending; a pending action comes with the
  flag set, a non-empty queue and a live destination; a live destination with the flag set
  or a non-empty queue has a pending action; a destination that takes no further call means
  a stopped stage; a destination that was told \<^verbatim>\<open>complete\<close> takes no further call and the flag
  is cleared; and the two inherited flags agree.
\<close>

definition stage_inv :: "('a, 'e) DelaySubscriber \<Rightarrow> bool" where
  "stage_inv w \<longleftrightarrow>
     length (actions (scheduler w)) \<le> 1 \<and>
     (actions (scheduler w) \<noteq> [] \<longrightarrow> active w \<and> queue w \<noteq> [] \<and> \<not> stopped (destination w)) \<and>
     (\<not> stopped (destination w) \<and> (active w \<or> queue w \<noteq> []) \<longrightarrow> actions (scheduler w) \<noteq> []) \<and>
     (stopped (destination w) \<longrightarrow> isStopped w) \<and>
     (OnComplete \<in> set (received (destination w)) \<longrightarrow> stopped (destination w) \<and> \<not> active w) \<and>
     (isStopped w \<longleftrightarrow> closed w)"

text \<open>
  The invariant behind the sorted queue: the due times are in ascending order and none
  exceeds what an item enqueued at the next clock read would get.
\<close>

definition queue_sorted :: "('a, 'e) DelaySubscriber \<Rightarrow> bool" where
  "queue_sorted w \<longleftrightarrow>
     sorted (map time (queue w)) \<and>
     (\<forall>m\<in>set (queue w). time m \<le> clock (scheduler w) (reads (scheduler w)) + delay_ms w)"

text \<open>The values among the notifications a destination received, in order.\<close>

fun nexts :: "('a, 'e) notification list \<Rightarrow> 'a list" where
  "nexts [] = []"
| "nexts (OnNext v # ns) = v # nexts ns"
| "nexts (OnError e # ns) = nexts ns"
| "nexts (OnComplete # ns) = nexts ns"

text \<open>The values upstream sent in a run of events, in order.\<close>

fun values_of :: "('a, 'e) event list \<Rightarrow> 'a list" where
  "values_of [] = []"
| "values_of (Next v # es) = v # values_of es"
| "values_of (Error e # es) = values_of es"
| "values_of (Complete # es) = values_of es"
| "values_of (Unsubscribe # es) = values_of es"
| "values_of (Wakeup i # es) = values_of es"

text \<open>
  An upstream that keeps its contract and sends no error, under a downstream that does not
  cancel: values, then at most one \<^verbatim>\<open>complete\<close>, and no call after it. The flag says that
  upstream has completed. The scheduler may run the action at any point.
\<close>

fun upstream_ok :: "bool \<Rightarrow> ('a, 'e) event list \<Rightarrow> bool" where
  "upstream_ok c [] = True"
| "upstream_ok c (Next v # es) = (\<not> c \<and> upstream_ok c es)"
| "upstream_ok c (Error e # es) = False"
| "upstream_ok c (Complete # es) = (\<not> c \<and> upstream_ok True es)"
| "upstream_ok c (Unsubscribe # es) = False"
| "upstream_ok c (Wakeup i # es) = upstream_ok c es"

text \<open>
  What was delivered, followed by what is still queued, is the list \<open>vs\<close>; no error was
  delivered; and a destination that takes no further call leaves nothing queued.
\<close>

definition delivery_inv :: "'a list \<Rightarrow> ('a, 'e) DelaySubscriber \<Rightarrow> bool" where
  "delivery_inv vs w \<longleftrightarrow>
     nexts (received (destination w)) @ map val (queue w) = vs \<and>
     (\<forall>e. OnError e \<notin> set (received (destination w))) \<and>
     (stopped (destination w) \<longrightarrow> queue w = [])"

text \<open>
  The state of a deferred completion: of the queue \<open>q\<close> that was pending when upstream
  completed, the first \<open>k\<close> items have been delivered after the notifications \<open>r\<close>, the rest
  is still queued, and the completion follows exactly when nothing is left.
\<close>

definition deferred ::
  "'a DelayMessage list \<Rightarrow> ('a, 'e) notification list \<Rightarrow> ('a, 'e) DelaySubscriber \<Rightarrow> bool" where
  "deferred q r w \<longleftrightarrow>
     (\<exists>k\<le>length q.
        queue w = drop k q \<and>
        received (destination w) =
          r @ map (\<lambda>m. OnNext (val m)) (take k q) @ (if k = length q then [OnComplete] else []) \<and>
        (k = length q \<longrightarrow> stopped (destination w)))"

subsection \<open>Concrete runs\<close>

text \<open>
  Runs of a stage with delay 10 on a clock that advances by 5 at every read: a fresh stage,
  two values pending, two values pending and upstream completed, a value followed by an
  error.
\<close>

definition example_fresh :: "(nat, nat) DelaySubscriber" where
  "example_fresh = run [] (stage (Number 10) (\<lambda>k. int k * 5))"

definition example_pending :: "(nat, nat) DelaySubscriber" where
  "example_pending = run [Next 1, Next 2] (stage (Number 10) (\<lambda>k. int k * 5))"

definition example_completing :: "(nat, nat) DelaySubscriber" where
  "example_completing = run [Next 1, Next 2, Complete] (stage (Number 10) (\<lambda>k. int k * 5))"

definition example_error :: "(nat, nat) DelaySubscriber" where
  "example_error = run [Next 1, Error 7] (stage (Number 10) (\<lambda>k. int k * 5))"


definition example_cancelled :: "(nat, nat) DelaySubscriber" where
  "example_cancelled = run [Next 1, Unsubscribe] (stage (Number 10) (\<lambda>k. int k * 5))"

text \<open>The same clock, and a stage built with the delay \<open>- 5\<close>.\<close>

definition example_negative :: "(nat, nat) DelaySubscriber" where
  "example_negative = run [] (stage (Number (- 5)) (\<lambda>k. int k * 5))"

text \<open>A stage built with a \<^verbatim>\<open>Date\<close> of time value 70 on a clock that starts at 100.\<close>

definition example_past_date :: "(nat, nat) DelaySubscriber" where
  "example_past_date = run [] (stage (Date 70) (\<lambda>k. 100 + int k * 5))"

text \<open>
  A clock that stands at 12 from its third read on, and a run that has two values pending
  then, the first of them due.
\<close>

definition example_clock :: "nat \<Rightarrow> int" where
  "example_clock k = (if k < 2 then int k * 5 else 12)"

definition example_due :: "(nat, nat) DelaySubscriber" where
  "example_due = run [Next 1, Next 2] (stage (Number 10) example_clock)"

text \<open>
  A clock that reads 0, then 5, then 20 at every later read, and a run that has one value
  pending, due at 10: a wakeup finds it not due at 5 and computes the next wait at 20.
\<close>

definition example_jump :: "nat \<Rightarrow> int" where
  "example_jump k = (if k = 0 then 0 else if k = 1 then 5 else 20)"

definition example_late :: "(nat, nat) DelaySubscriber" where
  "example_late = run [Next 1] (stage (Number 10) example_jump)"

section \<open>Properties\<close>

subsection \<open>The dispatch loop in closed form\<close>

lemma dispatch_loop_Nil: "queue w = [] \<Longrightarrow> dispatch_loop w = w"
  by (subst dispatch_loop.simps) simp

lemma dispatch_loop_Cons:
  "queue w = m # ms \<Longrightarrow>
   dispatch_loop w =
     (if time m - clock (scheduler w) (reads (scheduler w)) \<le> 0
      then dispatch_loop (destination_next (val m)
             (w\<lparr>scheduler := (scheduler w)\<lparr>reads := Suc (reads (scheduler w))\<rparr>, queue := ms\<rparr>))
      else w\<lparr>scheduler := (scheduler w)\<lparr>reads := Suc (reads (scheduler w))\<rparr>\<rparr>)"
  by (subst dispatch_loop.simps) (simp add: now_def)

lemma drained_le: "drained clk r q \<le> length q"
  by (induction q arbitrary: r) auto

lemma dispatch_loop_eq:
  "dispatch_loop w =
     (let k = drained (clock (scheduler w)) (reads (scheduler w)) (queue w) in
      w\<lparr>queue := drop k (queue w),
        scheduler := (scheduler w)\<lparr>reads := reads (scheduler w) + k + (if k < length (queue w) then 1 else 0)\<rparr>,
        destination := (destination w)\<lparr>received := received (destination w) @
          (if stopped (destination w) then [] else map (\<lambda>m. OnNext (val m)) (take k (queue w)))\<rparr>\<rparr>)"
proof (induction "queue w" arbitrary: w)
  case Nil
  then show ?case by (simp add: dispatch_loop_Nil[OF Nil[symmetric]] Nil[symmetric])
next
  case (Cons m ms)
  have q: "queue w = m # ms" using Cons.hyps(2) by simp
  show ?case
  proof (cases "time m - clock (scheduler w) (reads (scheduler w)) \<le> 0")
    case True
    let ?w' = "destination_next (val m)
             (w\<lparr>scheduler := (scheduler w)\<lparr>reads := Suc (reads (scheduler w))\<rparr>, queue := ms\<rparr>)"
    have "ms = queue ?w'" by (simp add: destination_next_def)
    from Cons.hyps(1)[OF this] show ?thesis
      using True q drained_le[of "clock (scheduler w)" "Suc (reads (scheduler w))" ms]
      by (simp add: dispatch_loop_Cons[OF q] destination_next_def Let_def)
  next
    case False
    then show ?thesis using q by (simp add: dispatch_loop_Cons[OF q])
  qed
qed

lemma ndrained_le: "ndrained w \<le> length (queue w)"
  by (simp add: ndrained_def drained_le)

lemma dispatch_loop_fields:
  "queue (dispatch_loop w) = drop (ndrained w) (queue w)"
  "active (dispatch_loop w) = active w"
  "delay_ms (dispatch_loop w) = delay_ms w"
  "isStopped (dispatch_loop w) = isStopped w"
  "closed (dispatch_loop w) = closed w"
  "actions (scheduler (dispatch_loop w)) = actions (scheduler w)"
  "clock (scheduler (dispatch_loop w)) = clock (scheduler w)"
  "reads (scheduler (dispatch_loop w)) =
     reads (scheduler w) + ndrained w + (if ndrained w < length (queue w) then 1 else 0)"
  "stopped (destination (dispatch_loop w)) = stopped (destination w)"
  "received (destination (dispatch_loop w)) =
     received (destination w) @
     (if stopped (destination w) then [] else map (\<lambda>m. OnNext (val m)) (take (ndrained w) (queue w)))"
  by (simp_all add: dispatch_loop_eq ndrained_def Let_def)

lemma dispatch_rearm:
  assumes "queue (dispatch_loop w) = m # ms"
  shows "dispatch w =
    (dispatch_loop w)\<lparr>scheduler := (scheduler (dispatch_loop w))
        \<lparr>reads := Suc (reads (scheduler (dispatch_loop w))),
         actions := actions (scheduler w) @
           [max 0 (time m - clock (scheduler w) (reads (scheduler (dispatch_loop w))))]\<rparr>\<rparr>"
  using assms
  by (simp add: dispatch_def Let_def now_def action_schedule_def schedule_def dispatch_loop_fields(6,7))

lemma dispatch_complete:
  assumes "queue (dispatch_loop w) = []" "isStopped w"
  shows "dispatch w = (destination_complete (dispatch_loop w))\<lparr>active := False\<rparr>"
  using assms by (simp add: dispatch_def Let_def dispatch_loop_fields(4))

lemma dispatch_idle:
  assumes "queue (dispatch_loop w) = []" "\<not> isStopped w"
  shows "dispatch w = (dispatch_loop w)\<lparr>active := False\<rparr>"
  using assms by (simp add: dispatch_def Let_def dispatch_loop_fields(4) action_unsubscribe_def)

subsection \<open>The upstream calls in closed form\<close>

lemma Subscriber_next_stopped: "isStopped w \<Longrightarrow> Subscriber_next v w = w"
  by (simp add: Subscriber_next_def)

lemma Subscriber_next_fields:
  assumes "\<not> isStopped w"
  shows "queue (Subscriber_next v w) =
           queue w @ [\<lparr>time = clock (scheduler w) (reads (scheduler w)) + delay_ms w, val = v\<rparr>]"
    and "active (Subscriber_next v w) = True"
    and "delay_ms (Subscriber_next v w) = delay_ms w"
    and "isStopped (Subscriber_next v w) = False"
    and "closed (Subscriber_next v w) = closed w"
    and "destination (Subscriber_next v w) = destination w"
    and "clock (scheduler (Subscriber_next v w)) = clock (scheduler w)"
    and "reads (scheduler (Subscriber_next v w)) = Suc (reads (scheduler w))"
    and "actions (scheduler (Subscriber_next v w)) =
           (if active w then actions (scheduler w)
            else if stopped (destination w) then butlast (actions (scheduler w) @ [delay_ms w])
            else actions (scheduler w) @ [delay_ms w])"
  using assms
  by (simp_all add: Subscriber_next_def DelaySubscriber_next_def DelaySubscriber_schedule_def
      destination_add_def schedule_def now_def Let_def)

lemma Subscriber_error_stopped: "isStopped w \<Longrightarrow> Subscriber_error e w = w"
  by (simp add: Subscriber_error_def)

lemma Subscriber_error_eq:
  assumes "\<not> isStopped w" "\<not> stopped (destination w)"
  shows "Subscriber_error e w =
     w\<lparr>queue := [], isStopped := True, closed := True,
       destination := \<lparr>received = received (destination w) @ [OnError e], stopped = True\<rparr>,
       scheduler := (scheduler w)\<lparr>actions := []\<rparr>\<rparr>"
  using assms
  by (simp add: Subscriber_error_def DelaySubscriber_error_def destination_error_def unsubscribe_def)

lemma Subscriber_complete_stopped: "isStopped w \<Longrightarrow> Subscriber_complete w = w"
  by (simp add: Subscriber_complete_def)

lemma Subscriber_complete_empty:
  assumes "\<not> isStopped w" "\<not> stopped (destination w)" "queue w = []"
  shows "Subscriber_complete w =
     w\<lparr>isStopped := True, closed := True,
       destination := \<lparr>received = received (destination w) @ [OnComplete], stopped = True\<rparr>,
       scheduler := (scheduler w)\<lparr>actions := []\<rparr>\<rparr>"
  using assms
  by (simp add: Subscriber_complete_def DelaySubscriber_complete_def destination_complete_def
      unsubscribe_def)

lemma Subscriber_complete_deferred:
  assumes "\<not> isStopped w" "queue w \<noteq> []"
  shows "Subscriber_complete w = w\<lparr>isStopped := True, closed := True\<rparr>"
  using assms
  by (simp add: Subscriber_complete_def DelaySubscriber_complete_def unsubscribe_def)

subsection \<open>The invariant holds in every reachable state\<close>

lemma stage_inv_init: "stage_inv (stage d clk)"
  by (cases d) (simp_all add: stage_inv_def stage_def delay_def delayFor_def DelaySubscriber_new_def
      Scheduler_new_def Subscriber_new_def now_def)

lemma stage_invD:
  assumes "stage_inv w"
  shows "length (actions (scheduler w)) \<le> 1"
    and "actions (scheduler w) \<noteq> [] \<Longrightarrow> active w"
    and "actions (scheduler w) \<noteq> [] \<Longrightarrow> queue w \<noteq> []"
    and "actions (scheduler w) \<noteq> [] \<Longrightarrow> \<not> stopped (destination w)"
    and "\<not> stopped (destination w) \<Longrightarrow> active w \<Longrightarrow> actions (scheduler w) \<noteq> []"
    and "\<not> stopped (destination w) \<Longrightarrow> queue w \<noteq> [] \<Longrightarrow> actions (scheduler w) \<noteq> []"
    and "stopped (destination w) \<Longrightarrow> isStopped w"
    and "OnComplete \<in> set (received (destination w)) \<Longrightarrow> stopped (destination w)"
    and "OnComplete \<in> set (received (destination w)) \<Longrightarrow> \<not> active w"
    and "isStopped w = closed w"
  using assms unfolding stage_inv_def by blast+

lemma stage_inv_next: "stage_inv w \<Longrightarrow> stage_inv (Subscriber_next v w)"
proof (cases "isStopped w")
  case True
  assume "stage_inv w"
  then show ?thesis by (simp add: Subscriber_next_stopped[OF True])
next
  case False
  assume inv: "stage_inv w"
  from stage_invD(7)[OF inv] False have ns: "\<not> stopped (destination w)" by blast
  from stage_invD(10)[OF inv] False have nc: "\<not> closed w" by blast
  from stage_invD(8)[OF inv] ns have oc: "OnComplete \<notin> set (received (destination w))" by blast
  show ?thesis
  proof (cases "active w")
    case True
    from stage_invD(5)[OF inv ns True] have "actions (scheduler w) \<noteq> []" .
    with stage_invD(1)[OF inv] show ?thesis
      unfolding stage_inv_def by (simp add: Subscriber_next_fields[OF False] True ns nc oc)
  next
    case na: False
    from stage_invD(2)[OF inv] na have "actions (scheduler w) = []" by blast
    then show ?thesis
      unfolding stage_inv_def by (simp add: Subscriber_next_fields[OF False] na ns nc oc)
  qed
qed

lemma stage_inv_error: "stage_inv w \<Longrightarrow> stage_inv (Subscriber_error e w)"
proof (cases "isStopped w")
  case True
  assume "stage_inv w"
  then show ?thesis by (simp add: Subscriber_error_stopped[OF True])
next
  case False
  assume inv: "stage_inv w"
  from stage_invD(7)[OF inv] False have ns: "\<not> stopped (destination w)" by blast
  from stage_invD(8)[OF inv] ns have oc: "OnComplete \<notin> set (received (destination w))" by blast
  show ?thesis by (simp add: Subscriber_error_eq[OF False ns] stage_inv_def oc)
qed

lemma stage_inv_complete: "stage_inv w \<Longrightarrow> stage_inv (Subscriber_complete w)"
proof (cases "isStopped w")
  case True
  assume "stage_inv w"
  then show ?thesis by (simp add: Subscriber_complete_stopped[OF True])
next
  case False
  assume inv: "stage_inv w"
  from stage_invD(7)[OF inv] False have ns: "\<not> stopped (destination w)" by blast
  note d = stage_invD[OF inv]
  from d(8) ns have oc: "OnComplete \<notin> set (received (destination w))" by blast
  show ?thesis
  proof (cases "queue w = []")
    case True
    from d(3) True have na: "actions (scheduler w) = []" by blast
    from d(5)[OF ns] na have "\<not> active w" by blast
    then show ?thesis
      unfolding stage_inv_def by (simp add: Subscriber_complete_empty[OF False ns True] True)
  next
    case q: False
    from d(6)[OF ns q] have a: "actions (scheduler w) \<noteq> []" .
    from d(2)[OF a] have "active w" .
    then show ?thesis
      unfolding stage_inv_def
      using a q ns d(1) oc by (simp add: Subscriber_complete_deferred[OF False q])
  qed
qed

lemma wakeup_enabled:
  assumes "stage_inv w" "i < length (actions (scheduler w))"
  shows "wakeup i w = dispatch (w\<lparr>scheduler := (scheduler w)\<lparr>actions := []\<rparr>\<rparr>)"
proof -
  from assms have "i = 0" "length (actions (scheduler w)) = 1" by (auto simp: stage_inv_def)
  then obtain a where "i = 0" "actions (scheduler w) = [a]"
    by (cases "actions (scheduler w)") auto
  then show ?thesis by (simp add: wakeup_def Let_def)
qed

lemma wakeup_disabled: "\<not> i < length (actions (scheduler w)) \<Longrightarrow> wakeup i w = w"
  by (simp add: wakeup_def Let_def)

lemma stage_inv_wakeup: "stage_inv w \<Longrightarrow> stage_inv (wakeup i w)"
proof (cases "i < length (actions (scheduler w))")
  case False
  assume "stage_inv w"
  with False show ?thesis by (simp add: wakeup_def)
next
  case True
  assume inv: "stage_inv w"
  note d = stage_invD[OF inv]
  from True have ne: "actions (scheduler w) \<noteq> []" by auto
  note a = d(2)[OF ne] d(3)[OF ne] d(4)[OF ne]
  from d(8) a(3) have "OnComplete \<notin> set (received (destination w))" by blast
  then have oc: "OnComplete \<notin> set (received (destination w) @ map (\<lambda>m. OnNext (val m)) xs)" for xs
    by auto
  let ?w0 = "w\<lparr>scheduler := (scheduler w)\<lparr>actions := []\<rparr>\<rparr>"
  show ?thesis
  proof (cases "queue (dispatch_loop ?w0)")
    case (Cons m ms)
    then have "drop (ndrained ?w0) (queue w) \<noteq> []" by (simp add: dispatch_loop_fields)
    then show ?thesis
      unfolding wakeup_enabled[OF inv True] dispatch_rearm[OF Cons] stage_inv_def
      using a d(10) oc by (simp add: dispatch_loop_fields)
  next
    case Nil
    then have dr: "drop (ndrained ?w0) (queue w) = []" by (simp add: dispatch_loop_fields)
    show ?thesis
    proof (cases "isStopped w")
      case True
      then have s: "isStopped ?w0" by simp
      show ?thesis
        unfolding wakeup_enabled[OF inv \<open>i < length (actions (scheduler w))\<close>]
          dispatch_complete[OF Nil s] stage_inv_def
        using a dr d(10) True by (simp add: dispatch_loop_fields destination_complete_def)
    next
      case False
      then have s: "\<not> isStopped ?w0" by simp
      show ?thesis
        unfolding wakeup_enabled[OF inv \<open>i < length (actions (scheduler w))\<close>]
          dispatch_idle[OF Nil s] stage_inv_def
        using a dr d(10) False oc by (simp add: dispatch_loop_fields)
    qed
  qed
qed

lemma destination_unsubscribe_stopped:
  "stopped (destination w) \<Longrightarrow> destination_unsubscribe w = w"
  by (simp add: destination_unsubscribe_def)

lemma destination_unsubscribe_fields:
  assumes "\<not> stopped (destination w)" "isStopped w = closed w"
  shows "queue (destination_unsubscribe w) = queue w"
    and "active (destination_unsubscribe w) = active w"
    and "delay_ms (destination_unsubscribe w) = delay_ms w"
    and "destination (destination_unsubscribe w) = (destination w)\<lparr>stopped := True\<rparr>"
    and "scheduler (destination_unsubscribe w) = (scheduler w)\<lparr>actions := []\<rparr>"
    and "isStopped (destination_unsubscribe w) = True"
    and "closed (destination_unsubscribe w) = True"
  using assms by (cases "closed w"; simp add: destination_unsubscribe_def unsubscribe_def)+

lemma destination_unsubscribe_frame:
  "delay_ms (destination_unsubscribe w) = delay_ms w"
  "clock (scheduler (destination_unsubscribe w)) = clock (scheduler w)"
  "reads (scheduler (destination_unsubscribe w)) = reads (scheduler w)"
  "queue (destination_unsubscribe w) = queue w"
  "active (destination_unsubscribe w) = active w"
  "received (destination (destination_unsubscribe w)) = received (destination w)"
  "stopped (destination (destination_unsubscribe w))"
  "isStopped w \<Longrightarrow> isStopped (destination_unsubscribe w)"
  by (simp_all add: destination_unsubscribe_def unsubscribe_def)

lemma stage_inv_unsubscribe: "stage_inv w \<Longrightarrow> stage_inv (destination_unsubscribe w)"
proof (cases "stopped (destination w)")
  case True
  assume "stage_inv w"
  then show ?thesis by (simp add: destination_unsubscribe_stopped[OF True])
next
  case False
  assume inv: "stage_inv w"
  from stage_invD(8)[OF inv] False have "OnComplete \<notin> set (received (destination w))" by blast
  then show ?thesis
    unfolding stage_inv_def
    by (simp add: destination_unsubscribe_fields[OF False stage_invD(10)[OF inv]])
qed

lemma stage_inv_step: "stage_inv w \<Longrightarrow> stage_inv (step e w)"
  by (cases e) (simp_all add: stage_inv_next stage_inv_error stage_inv_complete stage_inv_wakeup
      stage_inv_unsubscribe)

lemma stage_inv_run: "stage_inv w \<Longrightarrow> stage_inv (run es w)"
  by (induction es arbitrary: w) (simp_all add: stage_inv_step)

subsection \<open>Evaluating concrete runs\<close>

text \<open>The equations a run on concrete events unfolds with, and the states of the example runs.\<close>

lemmas stage_eval =
  stage_def delay_def delayFor_def DelaySubscriber_new_def Scheduler_new_def Subscriber_new_def
  now_def schedule_def destination_add_def destination_next_def destination_error_def
  destination_complete_def unsubscribe_def action_schedule_def action_unsubscribe_def
  dispatch_def DelaySubscriber_schedule_def DelaySubscriber_next_def DelaySubscriber_error_def
  DelaySubscriber_complete_def Subscriber_next_def Subscriber_error_def Subscriber_complete_def
  wakeup_def destination_unsubscribe_def Let_def dispatch_loop.simps

lemma example_error_eq:
  "example_error =
     \<lparr>queue = [], active = True, delay_ms = 10,
      scheduler = \<lparr>clock = \<lambda>k. int k * 5, reads = 1, actions = []\<rparr>,
      destination = \<lparr>received = [OnError 7], stopped = True\<rparr>,
      isStopped = True, closed = True\<rparr>"
  by (simp add: example_error_def stage_eval)

lemma example_pending_eq:
  "example_pending =
     \<lparr>queue = [\<lparr>time = 10, val = 1\<rparr>, \<lparr>time = 15, val = 2\<rparr>], active = True, delay_ms = 10,
      scheduler = \<lparr>clock = \<lambda>k. int k * 5, reads = 2, actions = [10]\<rparr>,
      destination = \<lparr>received = [], stopped = False\<rparr>,
      isStopped = False, closed = False\<rparr>"
  by (simp add: example_pending_def stage_eval)

lemma example_fresh_eq:
  "example_fresh =
     \<lparr>queue = [], active = False, delay_ms = 10,
      scheduler = \<lparr>clock = \<lambda>k. int k * 5, reads = 0, actions = []\<rparr>,
      destination = \<lparr>received = [], stopped = False\<rparr>,
      isStopped = False, closed = False\<rparr>"
  by (simp add: example_fresh_def stage_eval)

lemma example_completing_eq:
  "example_completing =
     \<lparr>queue = [\<lparr>time = 10, val = 1\<rparr>, \<lparr>time = 15, val = 2\<rparr>], active = True, delay_ms = 10,
      scheduler = \<lparr>clock = \<lambda>k. int k * 5, reads = 2, actions = [10]\<rparr>,
      destination = \<lparr>received = [], stopped = False\<rparr>,
      isStopped = True, closed = True\<rparr>"
  by (simp add: example_completing_def stage_eval)

lemma example_negative_eq:
  "example_negative =
     \<lparr>queue = [], active = False, delay_ms = 5,
      scheduler = \<lparr>clock = \<lambda>k. int k * 5, reads = 0, actions = []\<rparr>,
      destination = \<lparr>received = [], stopped = False\<rparr>,
      isStopped = False, closed = False\<rparr>"
  by (simp add: example_negative_def stage_eval)

lemma example_past_date_eq:
  "example_past_date =
     \<lparr>queue = [], active = False, delay_ms = - 30,
      scheduler = \<lparr>clock = \<lambda>k. 100 + int k * 5, reads = 1, actions = []\<rparr>,
      destination = \<lparr>received = [], stopped = False\<rparr>,
      isStopped = False, closed = False\<rparr>"
  by (simp add: example_past_date_def stage_eval)


lemma example_cancelled_eq:
  "example_cancelled =
     \<lparr>queue = [\<lparr>time = 10, val = 1\<rparr>], active = True, delay_ms = 10,
      scheduler = \<lparr>clock = \<lambda>k. int k * 5, reads = 1, actions = []\<rparr>,
      destination = \<lparr>received = [], stopped = True\<rparr>,
      isStopped = True, closed = True\<rparr>"
  by (simp add: example_cancelled_def stage_eval)

lemma example_late_eq:
  "example_late =
     \<lparr>queue = [\<lparr>time = 10, val = 1\<rparr>], active = True, delay_ms = 10,
      scheduler = \<lparr>clock = example_jump, reads = 1, actions = [10]\<rparr>,
      destination = \<lparr>received = [], stopped = False\<rparr>,
      isStopped = False, closed = False\<rparr>"
  by (simp add: example_late_def stage_eval example_jump_def)

lemma example_due_eq:
  "example_due =
     \<lparr>queue = [\<lparr>time = 10, val = 1\<rparr>, \<lparr>time = 15, val = 2\<rparr>], active = True, delay_ms = 10,
      scheduler = \<lparr>clock = example_clock, reads = 2, actions = [10]\<rparr>,
      destination = \<lparr>received = [], stopped = False\<rparr>,
      isStopped = False, closed = False\<rparr>"
  by (simp add: example_due_def stage_eval example_clock_def)

subsection \<open>What no step changes, and runs after termination\<close>

lemma dispatch_frame:
  "delay_ms (dispatch w) = delay_ms w"
  "clock (scheduler (dispatch w)) = clock (scheduler w)"
  "isStopped (dispatch w) = isStopped w"
  "closed (dispatch w) = closed w"
  "queue (dispatch w) = queue (dispatch_loop w)"
proof -
  consider (rearm) m ms where "queue (dispatch_loop w) = m # ms"
    | (complete) "queue (dispatch_loop w) = []" "isStopped w"
    | (idle) "queue (dispatch_loop w) = []" "\<not> isStopped w"
    by (cases "queue (dispatch_loop w)") auto
  then have "delay_ms (dispatch w) = delay_ms w \<and> clock (scheduler (dispatch w)) = clock (scheduler w) \<and>
    isStopped (dispatch w) = isStopped w \<and> closed (dispatch w) = closed w \<and>
    queue (dispatch w) = queue (dispatch_loop w)"
  proof cases
    case rearm
    show ?thesis unfolding dispatch_rearm[OF rearm] by (simp add: dispatch_loop_fields)
  next
    case complete
    show ?thesis unfolding dispatch_complete[OF complete]
      by (simp add: dispatch_loop_fields destination_complete_def)
  next
    case idle
    show ?thesis unfolding dispatch_idle[OF idle] by (simp add: dispatch_loop_fields)
  qed
  then show "delay_ms (dispatch w) = delay_ms w"
    "clock (scheduler (dispatch w)) = clock (scheduler w)"
    "isStopped (dispatch w) = isStopped w"
    "closed (dispatch w) = closed w"
    "queue (dispatch w) = queue (dispatch_loop w)" by blast+
qed

lemma step_frame:
  "delay_ms (step e w) = delay_ms w"
  "clock (scheduler (step e w)) = clock (scheduler w)"
proof -
  have "delay_ms (step e w) = delay_ms w \<and> clock (scheduler (step e w)) = clock (scheduler w)"
  proof (cases e)
    case (Next v)
    then show ?thesis
      by (cases "isStopped w") (simp_all add: Subscriber_next_stopped Subscriber_next_fields)
  next
    case (Error err)
    then show ?thesis
      by (simp add: Subscriber_error_def DelaySubscriber_error_def destination_error_def unsubscribe_def)
  next
    case Complete
    then show ?thesis
      by (simp add: Subscriber_complete_def DelaySubscriber_complete_def destination_complete_def
          unsubscribe_def)
  next
    case Unsubscribe
    then show ?thesis by (simp add: destination_unsubscribe_frame)
  next
    case (Wakeup i)
    then show ?thesis by (simp add: wakeup_def Let_def dispatch_frame)
  qed
  then show "delay_ms (step e w) = delay_ms w" "clock (scheduler (step e w)) = clock (scheduler w)"
    by blast+
qed

lemma run_frame:
  "delay_ms (run es w) = delay_ms w"
  "clock (scheduler (run es w)) = clock (scheduler w)"
  by (induction es arbitrary: w) (simp_all add: step_frame)

lemma stage_fields:
  "delay_ms (stage (Number n) clk) = \<bar>n\<bar>"
  "delay_ms (stage (Date ms) clk) = ms - clk 0"
  "clock (scheduler (stage d clk)) = clk"
  "reads (scheduler (stage (Number n) clk)) = 0"
  "reads (scheduler (stage (Date ms) clk)) = 1"
  by (cases d; simp add: stage_def delay_def delayFor_def DelaySubscriber_new_def Scheduler_new_def
      Subscriber_new_def now_def)+

lemma step_terminated:
  assumes "isStopped w" "actions (scheduler w) = []" "stopped (destination w)"
  shows "step e w = w"
  using assms
  by (cases e) (simp_all add: Subscriber_next_def Subscriber_error_def Subscriber_complete_def wakeup_def
      destination_unsubscribe_stopped)

lemma run_terminated:
  assumes "isStopped w" "actions (scheduler w) = []" "stopped (destination w)"
  shows "run es w = w"
  using assms by (induction es) (simp_all add: step_terminated)

lemma reachable_inv: "stage_inv (run es (stage d clk))"
  by (rule stage_inv_run[OF stage_inv_init])

subsection \<open>What the drain removes\<close>

lemma drained_const:
  "\<forall>j. r \<le> j \<and> j < r + length q \<longrightarrow> clk j = t \<Longrightarrow>
   drained clk r q = length (takeWhile (\<lambda>m. time m \<le> t) q)"
proof (induction q arbitrary: r)
  case Nil
  show ?case by simp
next
  case (Cons m q)
  from Cons.prems have r: "clk r = t" by simp
  from Cons.prems have "\<forall>j. Suc r \<le> j \<and> j < Suc r + length q \<longrightarrow> clk j = t" by simp
  from Cons.IH[OF this] show ?case by (simp add: r)
qed

lemma drained_due: "n < drained clk r q \<Longrightarrow> time (q ! n) \<le> clk (r + n)"
proof (induction q arbitrary: r n)
  case Nil
  then show ?case by simp
next
  case (Cons m q)
  from Cons.prems have due: "time m - clk r \<le> 0" by (simp split: if_splits)
  show ?case
  proof (cases n)
    case 0
    with due show ?thesis by simp
  next
    case (Suc n')
    with Cons.prems due have "n' < drained clk (Suc r) q" by simp
    from Cons.IH[OF this] show ?thesis using Suc by simp
  qed
qed

lemma drained_stop:
  "drained clk r q < length q \<Longrightarrow> clk (r + drained clk r q) < time (q ! drained clk r q)"
proof (induction q arbitrary: r)
  case Nil
  then show ?case by simp
next
  case (Cons m q)
  show ?case
  proof (cases "time m - clk r \<le> 0")
    case True
    with Cons.prems have "drained clk (Suc r) q < length q" by simp
    from Cons.IH[OF this] show ?thesis using True by simp
  next
    case False
    then show ?thesis by simp
  qed
qed

subsection \<open>The queue stays sorted under a monotonic clock\<close>

lemma queue_sorted_weaken:
  assumes "queue_sorted w" "mono (clock (scheduler w))"
    and "queue w' = drop k (queue w)" "clock (scheduler w') = clock (scheduler w)"
    and "reads (scheduler w) \<le> reads (scheduler w')" "delay_ms w' = delay_ms w"
  shows "queue_sorted w'"
proof -
  from assms(2,5) have le: "clock (scheduler w) (reads (scheduler w)) \<le> clock (scheduler w) (reads (scheduler w'))"
    by (rule monoD)
  have s: "sorted (map time (drop k (queue w)))"
  proof -
    from assms(1) have "sorted (map time (queue w))" by (simp add: queue_sorted_def)
    then have "sorted (drop k (map time (queue w)))" by (rule sorted_wrt_drop)
    then show ?thesis by (simp only: drop_map)
  qed
  have "\<forall>m\<in>set (drop k (queue w)). time m \<le> clock (scheduler w) (reads (scheduler w)) + delay_ms w"
    using assms(1) set_drop_subset[of k "queue w"] by (auto simp: queue_sorted_def)
  with le s show ?thesis unfolding queue_sorted_def assms(3,4,6) by fastforce
qed

lemma dispatch_reads_ge: "reads (scheduler w) \<le> reads (scheduler (dispatch w))"
proof -
  consider (rearm) m ms where "queue (dispatch_loop w) = m # ms"
    | (complete) "queue (dispatch_loop w) = []" "isStopped w"
    | (idle) "queue (dispatch_loop w) = []" "\<not> isStopped w"
    by (cases "queue (dispatch_loop w)") auto
  then show ?thesis
  proof cases
    case rearm
    show ?thesis unfolding dispatch_rearm[OF rearm] by (simp add: dispatch_loop_fields)
  next
    case complete
    show ?thesis unfolding dispatch_complete[OF complete]
      by (simp add: dispatch_loop_fields destination_complete_def)
  next
    case idle
    show ?thesis unfolding dispatch_idle[OF idle] by (simp add: dispatch_loop_fields)
  qed
qed

lemma queue_sorted_step:
  assumes "queue_sorted w" "mono (clock (scheduler w))"
  shows "queue_sorted (step e w)"
proof (cases e)
  case (Next v)
  show ?thesis
  proof (cases "isStopped w")
    case True
    then show ?thesis using assms(1) Next by (simp add: Subscriber_next_stopped)
  next
    case False
    from assms(2) have "clock (scheduler w) (reads (scheduler w)) \<le> clock (scheduler w) (Suc (reads (scheduler w)))"
      by (rule monoD) simp
    then show ?thesis using assms(1) Next
      by (fastforce simp: queue_sorted_def Subscriber_next_fields[OF False] sorted_append)
  qed
next
  case (Error err)
  show ?thesis
  proof (cases "isStopped w")
    case True
    then show ?thesis using assms(1) Error by (simp add: Subscriber_error_stopped)
  next
    case False
    then show ?thesis using Error
      by (simp add: queue_sorted_def Subscriber_error_def DelaySubscriber_error_def
          destination_error_def unsubscribe_def)
  qed
next
  case Complete
  show ?thesis
  proof (cases "isStopped w")
    case True
    then show ?thesis using assms(1) Complete by (simp add: Subscriber_complete_stopped)
  next
    case False
    then show ?thesis using assms(1) Complete
      by (simp add: queue_sorted_def Subscriber_complete_def DelaySubscriber_complete_def
          destination_complete_def unsubscribe_def)
  qed
next
  case Unsubscribe
  then show ?thesis using assms(1)
    by (simp add: queue_sorted_def destination_unsubscribe_frame)
next
  case (Wakeup i)
  show ?thesis
  proof (cases "i < length (actions (scheduler w))")
    case False
    then show ?thesis using assms(1) Wakeup by (simp add: wakeup_disabled)
  next
    case True
    let ?w0 = "w\<lparr>scheduler := (scheduler w)\<lparr>actions := take i (actions (scheduler w)) @ drop (Suc i) (actions (scheduler w))\<rparr>\<rparr>"
    have wk: "step e w = dispatch ?w0" using True Wakeup by (simp add: wakeup_def Let_def)
    show ?thesis unfolding wk
    proof (rule queue_sorted_weaken[OF assms])
      show "queue (dispatch ?w0) = drop (ndrained ?w0) (queue w)"
        by (simp add: dispatch_frame dispatch_loop_fields)
      show "clock (scheduler (dispatch ?w0)) = clock (scheduler w)" by (simp add: dispatch_frame)
      show "reads (scheduler w) \<le> reads (scheduler (dispatch ?w0))"
        using dispatch_reads_ge[of ?w0] by simp
      show "delay_ms (dispatch ?w0) = delay_ms w" by (simp add: dispatch_frame)
    qed
  qed
qed

lemma queue_sorted_run:
  assumes "queue_sorted w" "mono (clock (scheduler w))"
  shows "queue_sorted (run es w)"
  using assms by (induction es arbitrary: w) (simp_all add: queue_sorted_step step_frame)

lemma queue_sorted_init: "queue_sorted (stage d clk)"
  by (cases d) (simp_all add: queue_sorted_def stage_def delay_def delayFor_def DelaySubscriber_new_def
      now_def)

subsection \<open>Delivery in arrival order\<close>

lemma nexts_append: "nexts (xs @ ys) = nexts xs @ nexts ys"
  by (induction xs rule: nexts.induct) simp_all

lemma nexts_map: "nexts (map (\<lambda>m. OnNext (f m)) xs) = map f xs"
  by (induction xs) simp_all

lemma drained_all:
  "\<forall>n<length q. time (q ! n) \<le> clk (r + n) \<Longrightarrow> drained clk r q = length q"
proof (induction q arbitrary: r)
  case Nil
  show ?case by simp
next
  case (Cons m q)
  from Cons.prems have r: "time m \<le> clk r" by auto
  have "\<forall>n<length q. time (q ! n) \<le> clk (Suc r + n)"
  proof (intro allI impI)
    fix n assume "n < length q"
    then have "Suc n < length (m # q)" by simp
    with Cons.prems have "time ((m # q) ! Suc n) \<le> clk (r + Suc n)" by blast
    then show "time (q ! n) \<le> clk (Suc r + n)" by simp
  qed
  from Cons.IH[OF this] show ?case using r by simp
qed

lemma wakeup_stopped: "isStopped (wakeup i w) = isStopped w"
  by (simp add: wakeup_def Let_def dispatch_frame)

lemma delivery_next:
  assumes "stage_inv w" "\<not> isStopped w" "delivery_inv vs w"
  shows "delivery_inv (vs @ [v]) (Subscriber_next v w)"
proof -
  from stage_invD(7)[OF assms(1)] assms(2) have "\<not> stopped (destination w)" by blast
  then show ?thesis
    using assms(3) by (simp add: delivery_inv_def Subscriber_next_fields[OF assms(2)])
qed

lemma delivery_complete:
  assumes "stage_inv w" "\<not> isStopped w" "delivery_inv vs w"
  shows "delivery_inv vs (Subscriber_complete w)"
proof -
  from stage_invD(7)[OF assms(1)] assms(2) have ns: "\<not> stopped (destination w)" by blast
  show ?thesis
  proof (cases "queue w = []")
    case True
    with assms(3) show ?thesis
      by (simp add: delivery_inv_def Subscriber_complete_empty[OF assms(2) ns True] nexts_append)
  next
    case False
    with assms(3) ns show ?thesis
      by (simp add: delivery_inv_def Subscriber_complete_deferred[OF assms(2) False])
  qed
qed

lemma dispatch_delivered:
  assumes "\<not> stopped (destination w)"
  shows "nexts (received (destination (dispatch w))) =
           nexts (received (destination w)) @ map val (take (ndrained w) (queue w))"
    and "OnError e \<in> set (received (destination (dispatch w))) \<longleftrightarrow>
           OnError e \<in> set (received (destination w))"
proof -
  consider (rearm) m ms where "queue (dispatch_loop w) = m # ms"
    | (complete) "queue (dispatch_loop w) = []" "isStopped w"
    | (idle) "queue (dispatch_loop w) = []" "\<not> isStopped w"
    by (cases "queue (dispatch_loop w)") auto
  then have "nexts (received (destination (dispatch w))) =
           nexts (received (destination w)) @ map val (take (ndrained w) (queue w)) \<and>
         (OnError e \<in> set (received (destination (dispatch w))) \<longleftrightarrow>
           OnError e \<in> set (received (destination w)))"
  proof cases
    case rearm
    show ?thesis unfolding dispatch_rearm[OF rearm] using assms
      by (auto simp: dispatch_loop_fields nexts_append nexts_map)
  next
    case complete
    show ?thesis unfolding dispatch_complete[OF complete] using assms
      by (auto simp: dispatch_loop_fields destination_complete_def nexts_append nexts_map)
  next
    case idle
    show ?thesis unfolding dispatch_idle[OF idle] using assms
      by (auto simp: dispatch_loop_fields nexts_append nexts_map)
  qed
  then show "nexts (received (destination (dispatch w))) =
           nexts (received (destination w)) @ map val (take (ndrained w) (queue w))"
    and "OnError e \<in> set (received (destination (dispatch w))) \<longleftrightarrow>
           OnError e \<in> set (received (destination w))" by blast+
qed

lemma dispatch_stopped_empty:
  assumes "\<not> stopped (destination w)" "stopped (destination (dispatch w))"
  shows "queue (dispatch w) = []"
proof (cases "queue (dispatch_loop w)")
  case Nil
  then show ?thesis by (simp add: dispatch_frame)
next
  case (Cons m ms)
  from assms(2) have "stopped (destination w)"
    unfolding dispatch_rearm[OF Cons] by (simp add: dispatch_loop_fields)
  with assms(1) show ?thesis by simp
qed

lemma delivery_wakeup:
  assumes "stage_inv w" "delivery_inv vs w"
  shows "delivery_inv vs (wakeup i w)"
proof (cases "i < length (actions (scheduler w))")
  case False
  with assms(2) show ?thesis by (simp add: wakeup_disabled)
next
  case True
  then have ne: "actions (scheduler w) \<noteq> []" by auto
  let ?w0 = "w\<lparr>scheduler := (scheduler w)\<lparr>actions := []\<rparr>\<rparr>"
  have ns: "\<not> stopped (destination ?w0)" using stage_invD(4)[OF assms(1) ne] by simp
  have "map val (take (ndrained ?w0) (queue w)) @ map val (drop (ndrained ?w0) (queue w)) = map val (queue w)"
    by (simp only: map_append[symmetric] append_take_drop_id)
  then have c1: "nexts (received (destination (dispatch ?w0))) @ map val (queue (dispatch ?w0)) = vs"
    using assms(2)
    by (simp add: dispatch_delivered[OF ns] dispatch_frame dispatch_loop_fields delivery_inv_def)
  have c2: "\<forall>e. OnError e \<notin> set (received (destination (dispatch ?w0)))"
    using assms(2) by (simp add: dispatch_delivered[OF ns] delivery_inv_def)
  have c3: "stopped (destination (dispatch ?w0)) \<longrightarrow> queue (dispatch ?w0) = []"
    using dispatch_stopped_empty[OF ns] by blast
  show ?thesis
    unfolding wakeup_enabled[OF assms(1) True] delivery_inv_def using c1 c2 c3 by blast
qed

lemma delivery_run:
  assumes "stage_inv w" "delivery_inv vs w" "upstream_ok (isStopped w) es"
  shows "delivery_inv (vs @ values_of es) (run es w)"
  using assms
proof (induction es arbitrary: w vs)
  case Nil
  then show ?case by simp
next
  case (Cons e es)
  note inv' = stage_inv_step[OF Cons.prems(1), of e]
  show ?case
  proof (cases e)
    case (Next v)
    with Cons.prems(3) have ns: "\<not> isStopped w" by simp
    with Cons.prems(3) Next have ok: "upstream_ok False es" by simp
    have "delivery_inv ((vs @ [v]) @ values_of es) (run es (Subscriber_next v w))"
    proof (rule Cons.IH)
      show "stage_inv (Subscriber_next v w)" using inv' Next by simp
      show "delivery_inv (vs @ [v]) (Subscriber_next v w)"
        by (rule delivery_next[OF Cons.prems(1) ns Cons.prems(2)])
      show "upstream_ok (isStopped (Subscriber_next v w)) es"
        using ok by (simp add: Subscriber_next_fields[OF ns])
    qed
    then show ?thesis using Next by simp
  next
    case (Error err)
    with Cons.prems(3) show ?thesis by simp
  next
    case Unsubscribe
    with Cons.prems(3) show ?thesis by simp
  next
    case Complete
    with Cons.prems(3) have ns: "\<not> isStopped w" by simp
    from Cons.prems(3) Complete have ok: "upstream_ok True es" by simp
    have st: "isStopped (Subscriber_complete w)"
      using ns by (simp add: Subscriber_complete_def DelaySubscriber_complete_def
          destination_complete_def unsubscribe_def)
    have "delivery_inv (vs @ values_of es) (run es (Subscriber_complete w))"
    proof (rule Cons.IH)
      show "stage_inv (Subscriber_complete w)" using inv' Complete by simp
      show "delivery_inv vs (Subscriber_complete w)"
        by (rule delivery_complete[OF Cons.prems(1) ns Cons.prems(2)])
      show "upstream_ok (isStopped (Subscriber_complete w)) es" using ok st by simp
    qed
    then show ?thesis using Complete by simp
  next
    case (Wakeup i)
    with Cons.prems(3) have ok: "upstream_ok (isStopped w) es" by simp
    have "delivery_inv (vs @ values_of es) (run es (wakeup i w))"
    proof (rule Cons.IH)
      show "stage_inv (wakeup i w)" using inv' Wakeup by simp
      show "delivery_inv vs (wakeup i w)" by (rule delivery_wakeup[OF Cons.prems(1,2)])
      show "upstream_ok (isStopped (wakeup i w)) es" using ok by (simp add: wakeup_stopped)
    qed
    then show ?thesis using Wakeup by simp
  qed
qed

lemma delivery_init: "delivery_inv [] (stage d clk)"
  by (cases d) (simp_all add: delivery_inv_def stage_def delay_def delayFor_def DelaySubscriber_new_def
      Subscriber_new_def now_def)

lemma stage_not_stopped: "\<not> isStopped (stage d clk)"
  by (cases d) (simp_all add: stage_def delay_def delayFor_def DelaySubscriber_new_def now_def)

subsection \<open>A deferred completion\<close>

lemma deferred_wakeup:
  assumes "stage_inv w" "isStopped w" "deferred q r w"
  shows "deferred q r (wakeup i w)"
proof (cases "i < length (actions (scheduler w))")
  case False
  with assms(3) show ?thesis by (simp add: wakeup_disabled)
next
  case True
  then have ne: "actions (scheduler w) \<noteq> []" by auto
  let ?w0 = "w\<lparr>scheduler := (scheduler w)\<lparr>actions := []\<rparr>\<rparr>"
  have ns: "\<not> stopped (destination w)" by (rule stage_invD(4)[OF assms(1) ne])
  from assms(3) ns obtain k where k: "k < length q" "queue w = drop k q"
    "received (destination w) = r @ map (\<lambda>m. OnNext (val m)) (take k q)"
    unfolding deferred_def by (auto simp: le_less)
  define k' where "k' = ndrained ?w0"
  have k': "k' \<le> length q - k" using ndrained_le[of ?w0] k(2) by (simp add: k'_def)
  have ql: "queue (dispatch_loop ?w0) = drop (k + k') q"
    by (simp add: dispatch_loop_fields k(2) k'_def add.commute)
  have rl: "received (destination (dispatch_loop ?w0)) =
      r @ map (\<lambda>m. OnNext (val m)) (take (k + k') q)"
    using ns by (simp add: dispatch_loop_fields k(2,3) k'_def[symmetric] take_add)
  have sl: "\<not> stopped (destination (dispatch_loop ?w0))" using ns by (simp add: dispatch_loop_fields)
  have s0: "isStopped ?w0" using assms(2) by simp
  show ?thesis
  proof (cases "queue (dispatch_loop ?w0)")
    case (Cons m ms)
    with ql have lt: "k + k' < length q" by (cases "k + k' < length q") simp_all
    have "deferred q r (dispatch ?w0)"
      unfolding deferred_def
    proof (intro exI conjI)
      show "k + k' \<le> length q" using lt by simp
      show "queue (dispatch ?w0) = drop (k + k') q" by (simp add: dispatch_frame ql)
      show "received (destination (dispatch ?w0)) =
          r @ map (\<lambda>m. OnNext (val m)) (take (k + k') q) @
          (if k + k' = length q then [OnComplete] else [])"
        using lt by (simp add: dispatch_rearm[OF Cons] rl)
      show "k + k' = length q \<longrightarrow> stopped (destination (dispatch ?w0))"
        using lt sl by (simp add: dispatch_rearm[OF Cons])
    qed
    then show ?thesis by (simp add: wakeup_enabled[OF assms(1) True])
  next
    case Nil
    with ql k' k(1) have eq: "k + k' = length q" by simp
    have "deferred q r (dispatch ?w0)"
      unfolding deferred_def
    proof (intro exI conjI)
      show "k + k' \<le> length q" using eq by simp
      show "queue (dispatch ?w0) = drop (k + k') q" by (simp add: dispatch_frame ql)
      show "received (destination (dispatch ?w0)) =
          r @ map (\<lambda>m. OnNext (val m)) (take (k + k') q) @
          (if k + k' = length q then [OnComplete] else [])"
        using eq sl by (simp add: dispatch_complete[OF Nil s0] destination_complete_def rl)
      show "k + k' = length q \<longrightarrow> stopped (destination (dispatch ?w0))"
        using eq sl by (simp add: dispatch_complete[OF Nil s0] destination_complete_def)
    qed
    then show ?thesis by (simp add: wakeup_enabled[OF assms(1) True])
  qed
qed

lemma deferred_unsubscribe:
  assumes "deferred q r w"
  shows "deferred q r (destination_unsubscribe w)"
proof -
  from assms obtain k where k: "k \<le> length q" "queue w = drop k q"
    "received (destination w) =
       r @ map (\<lambda>m. OnNext (val m)) (take k q) @ (if k = length q then [OnComplete] else [])"
    unfolding deferred_def by blast
  show ?thesis
    unfolding deferred_def
    by (intro exI[of _ k]) (simp add: k destination_unsubscribe_frame)
qed

lemma deferred_step:
  assumes "stage_inv w" "isStopped w" "deferred q r w"
  shows "deferred q r (step e w)"
  using assms
  by (cases e) (simp_all add: Subscriber_next_stopped Subscriber_error_stopped
      Subscriber_complete_stopped deferred_wakeup deferred_unsubscribe)

lemma step_stays_stopped: "isStopped w \<Longrightarrow> isStopped (step e w)"
  by (cases e) (simp_all add: Subscriber_next_stopped Subscriber_error_stopped
      Subscriber_complete_stopped wakeup_stopped destination_unsubscribe_frame)

lemma deferred_run:
  assumes "stage_inv w" "isStopped w" "deferred q r w"
  shows "deferred q r (run es w)"
  using assms
  by (induction es arbitrary: w) (simp_all add: stage_inv_step step_stays_stopped deferred_step)

subsection \<open>A wakeup under a clock that stands still\<close>

text \<open>
  When the clock reads the same \<open>t\<close> at every read of a wakeup, the drain removes exactly the
  leading items with due time at most \<open>t\<close> and the wait of the rearm is the time left to the
  head.
\<close>

lemma rearm_frozen_clock:
  fixes w :: "('a, 'e) DelaySubscriber"
  assumes "w = run es (stage d clk)" "i < length (actions (scheduler w))"
    and "\<forall>j. reads (scheduler w) \<le> j \<and> j \<le> reads (scheduler w) + length (queue w) \<longrightarrow> clk j = t"
    and "queue (step (Wakeup i) w) \<noteq> []"
  shows "queue (step (Wakeup i) w) = dropWhile (\<lambda>m. time m \<le> t) (queue w) \<and>
         t < time (hd (queue (step (Wakeup i) w))) \<and>
         actions (scheduler (step (Wakeup i) w)) = [max 0 (time (hd (queue (step (Wakeup i) w))) - t)] \<and>
         active (step (Wakeup i) w)"
proof -
  have inv: "stage_inv w" unfolding assms(1) by (rule reachable_inv)
  have ck: "clock (scheduler w) = clk" by (simp add: assms(1) run_frame stage_fields)
  from assms(2) have ne: "actions (scheduler w) \<noteq> []" by auto
  let ?w0 = "w\<lparr>scheduler := (scheduler w)\<lparr>actions := []\<rparr>\<rparr>"
  let ?P = "\<lambda>m. time m \<le> t"
  have wk: "wakeup i w = dispatch ?w0" by (rule wakeup_enabled[OF inv assms(2)])
  have "\<forall>j. reads (scheduler w) \<le> j \<and> j < reads (scheduler w) + length (queue w) \<longrightarrow> clk j = t"
    using assms(3) by simp
  from drained_const[OF this] have nd: "ndrained ?w0 = length (takeWhile ?P (queue w))"
    by (simp add: ndrained_def ck)
  have q: "queue (dispatch_loop ?w0) = dropWhile ?P (queue w)"
    by (simp add: dispatch_loop_fields nd dropWhile_eq_drop)
  from assms(4) obtain m ms where c: "queue (dispatch_loop ?w0) = m # ms"
    by (cases "queue (dispatch_loop ?w0)") (simp_all add: wk dispatch_frame)
  from c q have dw: "dropWhile ?P (queue w) = m # ms" by simp
  then have m: "t < time m" using hd_dropWhile[of ?P "queue w"] by auto
  from c have "drop (ndrained ?w0) (queue w) \<noteq> []" by (simp add: dispatch_loop_fields)
  then have "ndrained ?w0 < length (queue w)" by simp
  then have rd: "clk (reads (scheduler (dispatch_loop ?w0))) = t"
    using assms(3) by (simp add: dispatch_loop_fields)
  have qd: "queue (step (Wakeup i) w) = m # ms" by (simp add: wk dispatch_frame c)
  have ac: "actions (scheduler (step (Wakeup i) w)) = [max 0 (time m - t)]"
    by (simp add: wk dispatch_rearm[OF c] ck rd)
  have fl: "active (step (Wakeup i) w)"
    using stage_invD(2)[OF inv ne] by (simp add: wk dispatch_rearm[OF c] dispatch_loop_fields(2))
  show ?thesis unfolding qd using dw m ac fl by simp
qed

section \<open>The claims\<close>

text \<open>
  C1, as stated: for every negative numeric delay \<open>d\<close> the effective delay duration is 0.
  The operator takes \<^verbatim>\<open>Math.abs(delay)\<close>: the delay \<open>- 5\<close> gives a stage whose delay is 5, not 0.
\<close>

theorem C1_counterexample:
  "delay_ms example_negative \<noteq> 0"
  by (simp add: example_negative_eq)

text \<open>
  C1, amended: if the configured delay is a negative number \<open>d\<close>, the stage does not fail and
  normalizes it to its absolute value: the effective delay duration is \<open>- d\<close>, which is
  positive, in every reachable state; it is what an arriving value's due time adds to the
  clock and what the first dispatch action is armed with.
\<close>

theorem C1_negative_delay:
  fixes w :: "('a, 'e) DelaySubscriber"
  assumes "d < 0" "w = run es (stage (Number d) clk)"
  shows "fst (delayFor (Number d) s) = - d \<and> delay_ms w = - d \<and> 0 < delay_ms w \<and>
         (\<not> isStopped w \<longrightarrow>
            last (queue (step (Next v) w)) = \<lparr>time = clk (reads (scheduler w)) - d, val = v\<rparr> \<and>
            (actions (scheduler w) = [] \<longrightarrow> actions (scheduler (step (Next v) w)) = [- d]))"
proof -
  have inv: "stage_inv w" unfolding assms(2) by (rule reachable_inv)
  have dl: "delay_ms w = - d" using assms(1) by (simp add: assms(2) run_frame stage_fields)
  have ck: "clock (scheduler w) = clk" by (simp add: assms(2) run_frame stage_fields)
  have nx: "last (queue (step (Next v) w)) = \<lparr>time = clk (reads (scheduler w)) - d, val = v\<rparr> \<and>
            (actions (scheduler w) = [] \<longrightarrow> actions (scheduler (step (Next v) w)) = [- d])"
    if ns: "\<not> isStopped w"
  proof -
    from stage_invD(7)[OF inv] ns have nd: "\<not> stopped (destination w)" by blast
    from stage_invD(5)[OF inv nd] have "actions (scheduler w) = [] \<Longrightarrow> \<not> active w" by blast
    then show ?thesis using nd by (simp add: Subscriber_next_fields[OF ns] dl ck)
  qed
  show ?thesis using assms(1) nx by (simp add: dl delayFor_def)
qed

theorem C1_negative_delay_witness:
  "(- 5 :: int) < 0 \<and> delay_ms example_negative = 5 \<and>
   \<not> isStopped example_negative \<and> actions (scheduler example_negative) = [] \<and>
   last (queue (step (Next 1) example_negative)) = \<lparr>time = 5, val = 1\<rparr> \<and>
   actions (scheduler (step (Next 1) example_negative)) = [5]"
proof -
  have neg: "(- 5 :: int) < 0" by simp
  from C1_negative_delay[OF neg example_negative_def, of "Scheduler_new (\<lambda>k. 0)" 1] show ?thesis
    by (simp add: example_negative_eq)
qed

text \<open>
  C2: for every run in which upstream sends no error and keeps its contract (and the
  downstream does not cancel), the values downstream has received, followed by the values
  still queued, are exactly the values upstream sent, in arrival order, and downstream has
  received no error. Once every queued item is due when the loop reads the clock for it,
  one run of the dispatch action empties the queue, and downstream has then received
  exactly the values upstream sent, in order.
\<close>

theorem C2_order_preserved:
  fixes w :: "('a, 'e) DelaySubscriber"
  assumes "upstream_ok False es" "w = run es (stage d clk)"
  shows "nexts (received (destination w)) @ map val (queue w) = values_of es \<and>
         (\<forall>e. OnError e \<notin> set (received (destination w))) \<and>
         ((\<forall>n<length (queue w). time (queue w ! n) \<le> clk (reads (scheduler w) + n)) \<longrightarrow>
            nexts (received (destination (step (Wakeup 0) w))) = values_of es \<and>
            queue (step (Wakeup 0) w) = [])"
proof -
  have inv: "stage_inv w" unfolding assms(2) by (rule reachable_inv)
  have ck: "clock (scheduler w) = clk" by (simp add: assms(2) run_frame stage_fields)
  have "delivery_inv ([] @ values_of es) (run es (stage d clk :: ('a, 'e) DelaySubscriber))"
    by (rule delivery_run[OF stage_inv_init delivery_init]) (simp add: stage_not_stopped assms(1))
  then have dv: "delivery_inv (values_of es) w" by (simp add: assms(2))
  have "nexts (received (destination (step (Wakeup 0) w))) = values_of es \<and>
        queue (step (Wakeup 0) w) = []"
    if due: "\<forall>n<length (queue w). time (queue w ! n) \<le> clk (reads (scheduler w) + n)"
  proof (cases "queue w = []")
    case True
    with stage_invD(3)[OF inv] have "actions (scheduler w) = []" by blast
    then have "wakeup 0 w = w" by (simp add: wakeup_disabled)
    then show ?thesis using dv True by (simp add: delivery_inv_def)
  next
    case False
    have ns: "\<not> stopped (destination w)" using dv False by (auto simp: delivery_inv_def)
    from stage_invD(6)[OF inv ns False] have en: "0 < length (actions (scheduler w))" by simp
    let ?w0 = "w\<lparr>scheduler := (scheduler w)\<lparr>actions := []\<rparr>\<rparr>"
    have ns0: "\<not> stopped (destination ?w0)" using ns by simp
    have nd: "ndrained ?w0 = length (queue w)"
      using drained_all[OF due] by (simp add: ndrained_def ck)
    show ?thesis using dv
      by (simp add: wakeup_enabled[OF inv en] dispatch_delivered[OF ns0] dispatch_frame
          dispatch_loop_fields nd delivery_inv_def)
  qed
  then show ?thesis using dv by (simp add: delivery_inv_def)
qed

theorem C2_order_preserved_witness:
  "upstream_ok False [Next 1, Next 2 :: (nat, nat) event] \<and>
   values_of [Next 1, Next 2 :: (nat, nat) event] = [1, 2] \<and>
   nexts (received (destination example_pending)) @ map val (queue example_pending) = [1, 2] \<and>
   nexts (received (destination (step (Wakeup 0) example_pending))) = [1, 2] \<and>
   queue (step (Wakeup 0) example_pending) = []"
proof -
  have ok: "upstream_ok False [Next 1, Next 2 :: (nat, nat) event]" by simp
  have due: "\<forall>n<length (queue example_pending).
      time (queue example_pending ! n) \<le> int (reads (scheduler example_pending) + n) * 5"
    by (auto simp: example_pending_eq less_Suc_eq numeral_2_eq_2)
  from C2_order_preserved[OF ok example_pending_def] due show ?thesis
    by simp
qed

text \<open>
  C3: when upstream completes a stage that is not stopped: with an empty queue the
  completion is appended to what downstream received in that same step; with a non-empty
  queue downstream is told nothing in that step, and in every later state (whatever events
  follow) some first \<open>k\<close> of the buffered items have been delivered in order, the others are
  still queued, and the completion has been delivered exactly when all of them have been,
  after the last one.
\<close>

theorem C3_completion:
  fixes w :: "('a, 'e) DelaySubscriber"
  assumes "w = run es (stage d clk)" "\<not> isStopped w"
  shows "(queue w = [] \<longrightarrow>
            received (destination (step Complete w)) = received (destination w) @ [OnComplete]) \<and>
         (queue w \<noteq> [] \<longrightarrow>
            received (destination (step Complete w)) = received (destination w) \<and>
            (\<forall>es'. \<exists>k\<le>length (queue w).
               queue (run es' (step Complete w)) = drop k (queue w) \<and>
               received (destination (run es' (step Complete w))) =
                 received (destination w) @ map (\<lambda>m. OnNext (val m)) (take k (queue w)) @
                 (if k = length (queue w) then [OnComplete] else [])))"
proof -
  have inv: "stage_inv w" unfolding assms(1) by (rule reachable_inv)
  from stage_invD(7)[OF inv] assms(2) have ns: "\<not> stopped (destination w)" by blast
  have e: "received (destination (step Complete w)) = received (destination w) @ [OnComplete]"
    if "queue w = []"
    by (simp add: Subscriber_complete_empty[OF assms(2) ns that])
  have n: "received (destination (step Complete w)) = received (destination w) \<and>
            (\<forall>es'. \<exists>k\<le>length (queue w).
               queue (run es' (step Complete w)) = drop k (queue w) \<and>
               received (destination (run es' (step Complete w))) =
                 received (destination w) @ map (\<lambda>m. OnNext (val m)) (take k (queue w)) @
                 (if k = length (queue w) then [OnComplete] else []))"
    if q: "queue w \<noteq> []"
  proof -
    let ?w' = "w\<lparr>isStopped := True, closed := True\<rparr>"
    have c: "step Complete w = ?w'" by (simp add: Subscriber_complete_deferred[OF assms(2) q])
    have inv': "stage_inv ?w'" using stage_inv_step[OF inv, of Complete] c by simp
    have d0: "deferred (queue w) (received (destination w)) ?w'"
      unfolding deferred_def using q ns by (intro exI[of _ 0]) simp
    have "deferred (queue w) (received (destination w)) (run es' ?w')" for es'
      by (rule deferred_run[OF inv' _ d0]) simp
    then have "\<forall>es'. \<exists>k\<le>length (queue w).
               queue (run es' ?w') = drop k (queue w) \<and>
               received (destination (run es' ?w')) =
                 received (destination w) @ map (\<lambda>m. OnNext (val m)) (take k (queue w)) @
                 (if k = length (queue w) then [OnComplete] else [])"
      unfolding deferred_def by blast
    then show ?thesis unfolding c by simp
  qed
  from e n show ?thesis by blast
qed

theorem C3_completion_witness:
  "\<not> isStopped example_fresh \<and> queue example_fresh = [] \<and>
   received (destination (step Complete example_fresh)) = [OnComplete] \<and>
   \<not> isStopped example_pending \<and>
   queue example_pending = [\<lparr>time = 10, val = 1\<rparr>, \<lparr>time = 15, val = 2\<rparr>] \<and>
   received (destination (step Complete example_pending)) = [] \<and>
   received (destination (run [Wakeup 0] (step Complete example_pending))) =
     [OnNext 1, OnNext 2, OnComplete]"
proof -
  have a: "\<not> isStopped example_fresh" by (simp add: example_fresh_eq)
  have b: "\<not> isStopped example_pending" by (simp add: example_pending_eq)
  from C3_completion[OF example_fresh_def a] C3_completion[OF example_pending_def b]
  show ?thesis
    by (simp add: example_fresh_eq example_pending_eq stage_eval)
qed

text \<open>
  C4: when upstream signals an error to a stage that is not stopped, the pending queue is
  cleared, the error is appended to what downstream has received in that same step, the
  stage is torn down (stopped, closed, destination stopped, no action armed), and every
  later run of events leaves the state as it is, so no buffered value is delivered
  afterwards.
\<close>

theorem C4_error_bypass:
  assumes "w = run es (stage d clk)" "\<not> isStopped w"
  shows "queue (step (Error e) w) = [] \<and>
         received (destination (step (Error e) w)) = received (destination w) @ [OnError e] \<and>
         isStopped (step (Error e) w) \<and> closed (step (Error e) w) \<and>
         stopped (destination (step (Error e) w)) \<and>
         actions (scheduler (step (Error e) w)) = [] \<and>
         (\<forall>es'. run es' (step (Error e) w) = step (Error e) w)"
proof -
  have inv: "stage_inv w" unfolding assms(1) by (rule reachable_inv)
  from stage_invD(7)[OF inv] assms(2) have ns: "\<not> stopped (destination w)" by blast
  note eq = Subscriber_error_eq[OF assms(2) ns, of e]
  have "\<forall>es'. run es' (step (Error e) w) = step (Error e) w"
    by (intro allI run_terminated) (simp_all add: eq)
  then show ?thesis by (simp add: eq)
qed

theorem C4_error_bypass_witness:
  "\<not> isStopped example_pending \<and>
   queue example_pending = [\<lparr>time = 10, val = 1\<rparr>, \<lparr>time = 15, val = 2\<rparr>] \<and>
   queue (step (Error 7) example_pending) = [] \<and>
   received (destination (step (Error 7) example_pending)) = [OnError 7] \<and>
   isStopped (step (Error 7) example_pending) \<and> closed (step (Error 7) example_pending) \<and>
   stopped (destination (step (Error 7) example_pending)) \<and>
   actions (scheduler (step (Error 7) example_pending)) = [] \<and>
   run [Wakeup 0, Next 3, Complete, Wakeup 0] (step (Error 7) example_pending) =
     step (Error 7) example_pending"
proof -
  have ns: "\<not> isStopped example_pending" by (simp add: example_pending_eq)
  from C4_error_bypass[OF example_pending_def ns, of 7] show ?thesis
    by (simp add: example_pending_eq)
qed


text \<open>
  A cancellation by the downstream has the same effect, with no error sent: after
  \<^verbatim>\<open>next(1)\<close> and the downstream unsubscribing, the flag is set and no action is armed.
\<close>

lemma cancelled_flag_without_action:
  "active example_cancelled \<and> actions (scheduler example_cancelled) = [] \<and>
   received (destination example_cancelled) = []"
  by (simp add: example_cancelled_eq)



text \<open>
  C6: on every dispatch wakeup of a reachable stage that leaves the queue non-empty, the
  drain has removed a prefix of the queue, each removed item due at the clock value read for
  it, the head that is left was not due at the value read for it, and the same action is
  armed again with wait \<open>max 0 (head.time - t)\<close>, where \<open>t\<close> is the clock value read for the
  rearm (the last read of the wakeup); the Activity Flag stays true and this action is the
  only one armed. The clock may move between the reads, so the clamp at 0 can apply.
\<close>

theorem C6_rearm:
  fixes w :: "('a, 'e) DelaySubscriber"
  assumes "w = run es (stage d clk)" "i < length (actions (scheduler w))"
    and "queue (step (Wakeup i) w) \<noteq> []"
  shows "\<exists>k<length (queue w).
           queue (step (Wakeup i) w) = drop k (queue w) \<and>
           hd (queue (step (Wakeup i) w)) = queue w ! k \<and>
           (\<forall>n<k. time (queue w ! n) \<le> clk (reads (scheduler w) + n)) \<and>
           clk (reads (scheduler w) + k) < time (queue w ! k) \<and>
           reads (scheduler (step (Wakeup i) w)) = reads (scheduler w) + k + 2 \<and>
           actions (scheduler (step (Wakeup i) w)) =
             [max 0 (time (queue w ! k) - clk (reads (scheduler w) + k + 1))] \<and>
           active (step (Wakeup i) w)"
proof -
  have inv: "stage_inv w" unfolding assms(1) by (rule reachable_inv)
  have ck: "clock (scheduler w) = clk" by (simp add: assms(1) run_frame stage_fields)
  from assms(2) have ne: "actions (scheduler w) \<noteq> []" by auto
  let ?w0 = "w\<lparr>scheduler := (scheduler w)\<lparr>actions := []\<rparr>\<rparr>"
  define k where "k = drained clk (reads (scheduler w)) (queue w)"
  have nd: "ndrained ?w0 = k" by (simp add: ndrained_def k_def ck)
  have wk: "wakeup i w = dispatch ?w0" by (rule wakeup_enabled[OF inv assms(2)])
  from assms(3) obtain m ms where c: "queue (dispatch_loop ?w0) = m # ms"
    by (cases "queue (dispatch_loop ?w0)") (simp_all add: wk dispatch_frame)
  then have dk: "drop k (queue w) = m # ms" by (simp add: dispatch_loop_fields nd)
  then have lt: "k < length (queue w)" by (cases "k < length (queue w)") simp_all
  from dk have m: "m = queue w ! k" using hd_drop_conv_nth[OF lt] by simp
  have rd: "reads (scheduler (dispatch_loop ?w0)) = reads (scheduler w) + k + 1"
    using lt by (simp add: dispatch_loop_fields nd)
  have q: "queue (step (Wakeup i) w) = drop k (queue w)"
    by (simp add: wk dispatch_frame dispatch_loop_fields nd)
  have h: "hd (queue (step (Wakeup i) w)) = queue w ! k" unfolding q dk by (simp add: m)
  have due: "\<forall>n<k. time (queue w ! n) \<le> clk (reads (scheduler w) + n)"
    unfolding k_def by (intro allI impI) (rule drained_due)
  have stop: "clk (reads (scheduler w) + k) < time (queue w ! k)"
    using lt unfolding k_def by (rule drained_stop)
  have r2: "reads (scheduler (step (Wakeup i) w)) = reads (scheduler w) + k + 2"
    by (simp add: wk dispatch_rearm[OF c] rd)
  have ac: "actions (scheduler (step (Wakeup i) w)) =
      [max 0 (time (queue w ! k) - clk (reads (scheduler w) + k + 1))]"
    by (simp add: wk dispatch_rearm[OF c] ck rd m)
  have fl: "active (step (Wakeup i) w)"
    using stage_invD(2)[OF inv ne] by (simp add: wk dispatch_rearm[OF c] dispatch_loop_fields(2))
  from lt q h due stop r2 ac fl show ?thesis by blast
qed

theorem C6_rearm_witness:
  "0 < length (actions (scheduler example_late)) \<and>
   queue example_late = [\<lparr>time = 10, val = 1\<rparr>] \<and>
   example_jump 1 = 5 \<and> example_jump 2 = 20 \<and>
   queue (step (Wakeup 0) example_late) = [\<lparr>time = 10, val = 1\<rparr>] \<and>
   actions (scheduler (step (Wakeup 0) example_late)) = [0] \<and>
   active (step (Wakeup 0) example_late) \<and>
   0 < length (actions (scheduler example_due)) \<and>
   queue example_due = [\<lparr>time = 10, val = 1\<rparr>, \<lparr>time = 15, val = 2\<rparr>] \<and>
   queue (step (Wakeup 0) example_due) = [\<lparr>time = 15, val = 2\<rparr>] \<and>
   actions (scheduler (step (Wakeup 0) example_due)) = [3] \<and>
   active (step (Wakeup 0) example_due)"
proof -
  have a: "0 < length (actions (scheduler example_late))" by (simp add: example_late_eq)
  have q: "queue (step (Wakeup 0) example_late) = [\<lparr>time = 10, val = 1\<rparr>]"
    by (simp add: example_late_eq stage_eval example_jump_def)
  then have ne: "queue (step (Wakeup 0) example_late) \<noteq> []" by simp
  have a': "0 < length (actions (scheduler example_due))" by (simp add: example_due_eq)
  have q': "queue (step (Wakeup 0) example_due) = [\<lparr>time = 15, val = 2\<rparr>]"
    by (simp add: example_due_eq stage_eval example_clock_def)
  then have ne': "queue (step (Wakeup 0) example_due) \<noteq> []" by simp
  from C6_rearm[OF example_late_def a ne] C6_rearm[OF example_due_def a' ne']
  show ?thesis
    using a q a' q'
    by (simp add: example_late_eq example_due_eq example_jump_def example_clock_def stage_eval)
qed

text \<open>
  C7: for a value arriving from upstream at a stage that is not stopped, \<^verbatim>\<open>_next\<close> appends the
  item with \<open>time = scheduler.now() + delay\<close> (the delay the stage was built with) to the
  tail of the queue, arms a dispatch action with that delay if and only if none is armed,
  and does not fail: the stage is not stopped afterwards and downstream is told nothing.
\<close>

theorem C7_enqueue:
  fixes w :: "('a, 'e) DelaySubscriber"
  assumes "w = run es (stage d clk)" "\<not> isStopped w"
  shows "queue (step (Next v) w) =
           queue w @ [\<lparr>time = clock (scheduler w) (reads (scheduler w)) + delay_ms w, val = v\<rparr>] \<and>
         delay_ms w = delay_ms (stage d clk :: ('a, 'e) DelaySubscriber) \<and>
         actions (scheduler (step (Next v) w)) =
           (if actions (scheduler w) = [] then [delay_ms w] else actions (scheduler w)) \<and>
         active (step (Next v) w) \<and>
         \<not> isStopped (step (Next v) w) \<and>
         destination (step (Next v) w) = destination w"
proof -
  have inv: "stage_inv w" unfolding assms(1) by (rule reachable_inv)
  note d = stage_invD[OF inv]
  from d(7) assms(2) have ns: "\<not> stopped (destination w)" by blast
  have a: "active w \<longleftrightarrow> actions (scheduler w) \<noteq> []" using d(2) d(5)[OF ns] by blast
  have "delay_ms w = delay_ms (stage d clk :: ('a, 'e) DelaySubscriber)"
    unfolding assms(1) by (rule run_frame)
  then show ?thesis using a ns by (simp add: Subscriber_next_fields[OF assms(2)])
qed

theorem C7_enqueue_witness:
  "\<not> isStopped example_fresh \<and> actions (scheduler example_fresh) = [] \<and>
   queue (step (Next 1) example_fresh) = [\<lparr>time = 10, val = 1\<rparr>] \<and>
   actions (scheduler (step (Next 1) example_fresh)) = [10] \<and>
   active (step (Next 1) example_fresh) \<and>
   \<not> isStopped (step (Next 1) example_fresh) \<and>
   destination (step (Next 1) example_fresh) = destination example_fresh"
proof -
  have ns: "\<not> isStopped example_fresh" by (simp add: example_fresh_eq)
  from C7_enqueue[OF example_fresh_def ns, of 1] show ?thesis
    by (simp add: example_fresh_eq)
qed

text \<open>
  C8: if the clock of the scheduler is monotonic, the pending queue is sorted by due time in
  every reachable state. The delay is the one the stage was built with in every reachable
  state, so the other precondition of the claim holds of every run.
\<close>

theorem C8_queue_sorted:
  fixes w :: "('a, 'e) DelaySubscriber"
  assumes "mono clk" "w = run es (stage d clk)"
  shows "sorted (map time (queue w)) \<and> delay_ms w = delay_ms (stage d clk :: ('a, 'e) DelaySubscriber)"
proof -
  have "queue_sorted w" unfolding assms(2)
    by (rule queue_sorted_run[OF queue_sorted_init]) (simp add: stage_fields assms(1))
  then show ?thesis by (simp add: queue_sorted_def assms(2) run_frame)
qed

theorem C8_queue_sorted_witness:
  "mono (\<lambda>k. int k * 5) \<and> map time (queue example_pending) = [10, 15] \<and>
   sorted (map time (queue example_pending)) \<and> delay_ms example_pending = 10"
proof -
  have m: "mono (\<lambda>k. int k * 5)" by (rule monoI) simp
  from C8_queue_sorted[OF m example_pending_def] show ?thesis
    using m by (simp add: example_pending_eq stage_fields)
qed

text \<open>
  C9: when the scheduler runs the armed dispatch action of a stage whose Stopped Flag is set
  and the queue is empty after the drain, downstream receives the remaining values and then
  the completion, the destination is torn down, no action is armed any more, the Activity
  Flag is cleared, and the stage is stopped and closed.
\<close>

theorem C9_dispatch_completes:
  assumes "w = run es (stage d clk)" "i < length (actions (scheduler w))"
    and "isStopped w" "queue (step (Wakeup i) w) = []"
  shows "received (destination (step (Wakeup i) w)) =
           received (destination w) @ map (\<lambda>m. OnNext (val m)) (queue w) @ [OnComplete] \<and>
         stopped (destination (step (Wakeup i) w)) \<and>
         actions (scheduler (step (Wakeup i) w)) = [] \<and>
         \<not> active (step (Wakeup i) w) \<and>
         isStopped (step (Wakeup i) w) \<and> closed (step (Wakeup i) w)"
proof -
  have inv: "stage_inv w" unfolding assms(1) by (rule reachable_inv)
  note d = stage_invD[OF inv]
  from assms(2) have ne: "actions (scheduler w) \<noteq> []" by auto
  let ?w0 = "w\<lparr>scheduler := (scheduler w)\<lparr>actions := []\<rparr>\<rparr>"
  have wk: "wakeup i w = dispatch ?w0" by (rule wakeup_enabled[OF inv assms(2)])
  from assms(4) have q: "queue (dispatch_loop ?w0) = []" by (simp add: wk dispatch_frame)
  then have dr: "drop (ndrained ?w0) (queue w) = []" by (simp add: dispatch_loop_fields)
  have s: "isStopped ?w0" using assms(3) by simp
  have c: "closed w" using d(10) assms(3) by blast
  show ?thesis
    using dr d(4)[OF ne] assms(3) c
    by (simp add: wk dispatch_complete[OF q s] dispatch_loop_fields destination_complete_def)
qed

theorem C9_dispatch_completes_witness:
  "0 < length (actions (scheduler example_completing)) \<and> isStopped example_completing \<and>
   queue (step (Wakeup 0) example_completing) = [] \<and>
   received (destination (step (Wakeup 0) example_completing)) = [OnNext 1, OnNext 2, OnComplete] \<and>
   stopped (destination (step (Wakeup 0) example_completing)) \<and>
   actions (scheduler (step (Wakeup 0) example_completing)) = [] \<and>
   \<not> active (step (Wakeup 0) example_completing) \<and>
   isStopped (step (Wakeup 0) example_completing) \<and> closed (step (Wakeup 0) example_completing)"
proof -
  have a: "0 < length (actions (scheduler example_completing))" "isStopped example_completing"
    by (simp_all add: example_completing_eq)
  have q: "queue (step (Wakeup 0) example_completing) = []"
    by (simp add: example_completing_eq stage_eval)
  from C9_dispatch_completes[OF example_completing_def a q] show ?thesis
    using a q by (simp add: example_completing_eq)
qed

text \<open>
  C10: for a valid \<^verbatim>\<open>Date\<close> in the past (\<open>ms < clk 0\<close>, the clock read at construction) the
  delay is \<open>ms - clk 0\<close>, computed with one read of the clock when the operator is built,
  and it stays that negative number in every reachable state: no absolute value is taken
  (only a numeric delay goes through \<^verbatim>\<open>Math.abs\<close>). An arriving item gets a due time below the
  clock value read for it, and the dispatch action is armed with the negative wait.
\<close>

theorem C10_past_date:
  fixes w :: "('a, 'e) DelaySubscriber"
  assumes "ms < clk 0" "w = run es (stage (Date ms) clk)"
  shows "delayFor (Date ms) (Scheduler_new clk) = (ms - clk 0, (Scheduler_new clk)\<lparr>reads := 1\<rparr>) \<and>
         fst (delayFor (Number n) s) = \<bar>n\<bar> \<and>
         delay_ms w = ms - clk 0 \<and> delay_ms w < 0 \<and>
         (\<not> isStopped w \<longrightarrow>
            time (last (queue (step (Next v) w))) = clk (reads (scheduler w)) + (ms - clk 0) \<and>
            time (last (queue (step (Next v) w))) < clk (reads (scheduler w)) \<and>
            (actions (scheduler w) = [] \<longrightarrow> actions (scheduler (step (Next v) w)) = [ms - clk 0]))"
proof -
  have inv: "stage_inv w" unfolding assms(2) by (rule reachable_inv)
  have dl: "delay_ms w = ms - clk 0" by (simp add: assms(2) run_frame stage_fields)
  have ck: "clock (scheduler w) = clk" by (simp add: assms(2) run_frame stage_fields)
  have nx: "time (last (queue (step (Next v) w))) = clk (reads (scheduler w)) + (ms - clk 0) \<and>
            time (last (queue (step (Next v) w))) < clk (reads (scheduler w)) \<and>
            (actions (scheduler w) = [] \<longrightarrow> actions (scheduler (step (Next v) w)) = [ms - clk 0])"
    if ns: "\<not> isStopped w"
  proof -
    from stage_invD(7)[OF inv] ns have nd: "\<not> stopped (destination w)" by blast
    from stage_invD(5)[OF inv nd] have "actions (scheduler w) = [] \<Longrightarrow> \<not> active w" by blast
    then show ?thesis using nd assms(1) by (simp add: Subscriber_next_fields[OF ns] dl ck)
  qed
  show ?thesis using assms(1) nx
    by (simp add: dl delayFor_def now_def Scheduler_new_def)
qed

theorem C10_past_date_witness:
  "(70 :: int) < 100 + int 0 * 5 \<and> delay_ms example_past_date = - 30 \<and>
   \<not> isStopped example_past_date \<and> actions (scheduler example_past_date) = [] \<and>
   time (last (queue (step (Next 1) example_past_date))) = 75 \<and>
   clock (scheduler example_past_date) (reads (scheduler example_past_date)) = 105 \<and>
   actions (scheduler (step (Next 1) example_past_date)) = [- 30]"
proof -
  have past: "(70 :: int) < (\<lambda>k. 100 + int k * 5) 0" by simp
  from C10_past_date[OF past example_past_date_def, of 0 "Scheduler_new (\<lambda>k. 0)" 1] show ?thesis
    by (simp add: example_past_date_eq)
qed

end
